theory Spec2Isabelle
  imports Main
begin

section \<open>The field parser\<close>

text \<open>
  \<^verbatim>\<open>fieldParser( ins, process, separator )\<close> listens to the \<^verbatim>\<open>data\<close> and \<^verbatim>\<open>close\<close>
  events of a readable stream. Both events run the same handler, \<^verbatim>\<open>append\<close>: a data
  event passes a chunk, a close event passes nothing. The handler grows a buffer, cuts
  it at every separator byte and chains one call of \<^verbatim>\<open>process\<close> per record on a single
  promise, \<^verbatim>\<open>pending\<close>.

  A buffer is a list of bytes (\<^typ>\<open>char\<close> is a byte); \<^verbatim>\<open>toString\<close> of a slice is the slice.
  A chunk is a \<^verbatim>\<open>Buffer\<close> or a string (\<^verbatim>\<open>Buffer.from\<close> of a string is its bytes).
  The promise chain is a queue of callbacks that have not run yet, together with the
  state of the promise that feeds the first of them: fulfilled, or rejected with an
  error. The JavaScript run time executes one handler or one callback at a time, so an
  execution is a list of events: a chunk arriving, the close, or one callback of the
  chain running (\<open>Tick\<close>).
\<close>

datatype 'e outcome = Returns | Throws 'e | Rejects 'e

datatype 'e task = Process string | Reject 'e | Resolve

datatype 'e settled = Unsettled | Resolved | Rejected 'e

record ('e, 's) parser =
  buffer :: string
  processing :: bool
  pending :: "'e task list"
  chain :: "'e option"
  settled :: "'e settled"
  calls :: "string list"
  env :: 's

definition init :: "'s \<Rightarrow> ('e, 's) parser" where
  "init s = \<lparr>buffer = [], processing = True, pending = [], chain = None,
     settled = Unsettled, calls = [], env = s\<rparr>"

definition slice :: "string \<Rightarrow> nat \<Rightarrow> nat \<Rightarrow> string" where
  "slice buf i j = take (j - i) (drop i buf)"

text \<open>
  The scan of \<^verbatim>\<open>append\<close>:
  \<^verbatim>\<open>for( i = 0, j = i; j < buffer.length; j++ )\<close> with
  \<^verbatim>\<open>end = buffer.length - 1\<close>, cutting \<^verbatim>\<open>buffer.slice( i, j )\<close> where
  \<^verbatim>\<open>buffer[j] == separator || (isComplete && j == end)\<close>. It returns the final \<open>i\<close>
  and the lines cut, in order.
\<close>

function scan :: "char \<Rightarrow> bool \<Rightarrow> string \<Rightarrow> nat \<Rightarrow> nat \<Rightarrow> string list \<Rightarrow> nat \<times> string list" where
  "scan separator isComplete buf i j lines =
     (if j < length buf then
        (if buf ! j = separator \<or> (isComplete \<and> int j = int (length buf) - 1)
         then scan separator isComplete buf (j + 1) (j + 1) (lines @ [slice buf i j])
         else scan separator isComplete buf i (j + 1) lines)
      else (i, lines))"
  by pat_completeness auto
termination
  by (relation "measure (\<lambda>(separator, isComplete, buf, i, j, lines). length buf - j)") auto

declare scan.simps [simp del]

datatype chunk = Buf string | Str string

fun bytes_of :: "chunk \<Rightarrow> string" where
  "bytes_of (Buf d) = d"
| "bytes_of (Str d) = d"

text \<open>
  The tests \<^verbatim>\<open>if( data )\<close> and \<^verbatim>\<open>!data\<close>: a missing argument is falsy, a \<^verbatim>\<open>Buffer\<close> is an
  object and truthy even when empty, a string is truthy unless it is empty.
\<close>

fun truthy_data :: "chunk option \<Rightarrow> bool" where
  "truthy_data None = False"
| "truthy_data (Some (Buf d)) = True"
| "truthy_data (Some (Str d)) = (d \<noteq> [])"

text \<open>
  \<^verbatim>\<open>append( data )\<close>. \<open>None\<close> is the call without data (the close event). Every line
  cut is chained on \<^verbatim>\<open>pending\<close>; on completion \<^verbatim>\<open>pending.then( () => resolve() )\<close> is
  attached to the end of the chain.
\<close>

definition append_input :: "char \<Rightarrow> chunk option \<Rightarrow> ('e, 's) parser \<Rightarrow> ('e, 's) parser" where
  "append_input separator data st =
     (if \<not> processing st then st
      else
        let buf = (if truthy_data data
                   then (case data of Some c \<Rightarrow> buffer st @ bytes_of c | None \<Rightarrow> buffer st)
                   else buffer st);
            isComplete = (\<not> truthy_data data);
            (i, lines) = scan separator isComplete buf 0 0 [];
            st1 = st\<lparr>buffer := buf, pending := pending st @ map Process lines\<rparr>
        in if isComplete
           then st1\<lparr>processing := False, pending := pending st1 @ [Resolve]\<rparr>
           else st1\<lparr>buffer := drop i buf\<rparr>)"

definition settle :: "'e settled \<Rightarrow> 'e settled \<Rightarrow> 'e settled" where
  "settle new old = (if old = Unsettled then new else old)"

text \<open>
  One callback of the chain runs. A callback attached with \<^verbatim>\<open>then\<close> and no rejection
  handler is skipped when the promise before it is rejected, and the rejection is passed
  on. The callback of a line calls \<^verbatim>\<open>process( line )\<close> inside \<^verbatim>\<open>try\<close>: an exception
  thrown by the call is caught, clears \<^verbatim>\<open>processing\<close> and chains
  \<^verbatim>\<open>() => reject( e )\<close> on the current end of the chain; a promise that the call returns
  is returned from the callback, so its rejection rejects the chain. \<open>process\<close> takes the
  line and the state of its closure and gives the outcome with the new state.
\<close>

definition tick :: "(string \<Rightarrow> 's \<Rightarrow> 'e outcome \<times> 's) \<Rightarrow> ('e, 's) parser \<Rightarrow> ('e, 's) parser" where
  "tick process st =
     (case pending st of
        [] \<Rightarrow> st
      | t # ts \<Rightarrow>
          (case chain st of
             Some e \<Rightarrow> st\<lparr>pending := ts\<rparr>
           | None \<Rightarrow>
               (case t of
                  Process line \<Rightarrow>
                    (case process line (env st) of
                       (Returns, s') \<Rightarrow>
                         st\<lparr>pending := ts, calls := calls st @ [line], env := s'\<rparr>
                     | (Throws e, s') \<Rightarrow>
                         st\<lparr>processing := False, pending := ts @ [Reject e],
                            calls := calls st @ [line], env := s'\<rparr>
                     | (Rejects e, s') \<Rightarrow>
                         st\<lparr>pending := ts, chain := Some e,
                            calls := calls st @ [line], env := s'\<rparr>)
                | Reject e \<Rightarrow> st\<lparr>pending := ts, settled := settle (Rejected e) (settled st)\<rparr>
                | Resolve \<Rightarrow> st\<lparr>pending := ts, settled := settle Resolved (settled st)\<rparr>)))"

fun weight :: "'e task \<Rightarrow> nat" where
  "weight (Process line) = 2"
| "weight (Reject e) = 1"
| "weight Resolve = 1"

text \<open>The callbacks of the chain run until none is left.\<close>

function drain :: "(string \<Rightarrow> 's \<Rightarrow> 'e outcome \<times> 's) \<Rightarrow> ('e, 's) parser \<Rightarrow> ('e, 's) parser" where
  "drain process st = (if pending st = [] then st else drain process (tick process st))"
  by pat_completeness auto
termination
  by (relation "measure (\<lambda>(process, st). sum_list (map weight (pending st)))")
     (auto simp: tick_def split: list.splits option.splits task.splits prod.splits outcome.splits)

declare drain.simps [simp del]

datatype event = Data chunk | Close | Tick

fun handle :: "char \<Rightarrow> (string \<Rightarrow> 's \<Rightarrow> 'e outcome \<times> 's) \<Rightarrow> ('e, 's) parser \<Rightarrow> event \<Rightarrow> ('e, 's) parser" where
  "handle separator process st (Data d) = append_input separator (Some d) st"
| "handle separator process st Close = append_input separator None st"
| "handle separator process st Tick = tick process st"

text \<open>
  The parser on a stream: \<open>ins\<close> is the order in which chunks arrive, the stream closes
  and callbacks run; the callbacks still chained afterwards run last. \<open>settled\<close> of the
  result is the state of the promise that \<^verbatim>\<open>fieldParser\<close> returned, \<open>calls\<close> the
  arguments of the calls of \<^verbatim>\<open>process\<close>, in order.
\<close>

definition fieldParser :: "event list \<Rightarrow> (string \<Rightarrow> 's \<Rightarrow> 'e outcome \<times> 's) \<Rightarrow> char \<Rightarrow> 's \<Rightarrow> ('e, 's) parser" where
  "fieldParser ins process separator s =
     drain process (foldl (handle separator process) (init s) ins)"




text \<open>
  The cut that \<^verbatim>\<open>append\<close> makes, written on the bytes alone: the records that end with
  a separator, and the bytes after the last separator. \<open>acc\<close> holds the bytes of the
  record being read. It is the reference the scan is compared with.
\<close>

fun splitr :: "char \<Rightarrow> string \<Rightarrow> string \<Rightarrow> string list \<times> string" where
  "splitr sep acc [] = ([], acc)"
| "splitr sep acc (c # cs) =
     (if c = sep then (acc # fst (splitr sep [] cs), snd (splitr sep [] cs))
      else splitr sep (acc @ [c]) cs)"

definition arrived :: "chunk option \<Rightarrow> string option" where
  "arrived data = (if truthy_data data then map_option bytes_of data else None)"

definition next_buffer :: "char \<Rightarrow> string option \<Rightarrow> string \<Rightarrow> string" where
  "next_buffer sep data buf =
     (case data of None \<Rightarrow> buf
      | Some d \<Rightarrow> drop (fst (scan sep False (buf @ d) 0 0 [])) (buf @ d))"

definition next_tasks :: "char \<Rightarrow> string option \<Rightarrow> string \<Rightarrow> 'e task list" where
  "next_tasks sep data buf =
     (case data of None \<Rightarrow> map Process (snd (scan sep True buf 0 0 [])) @ [Resolve]
      | Some d \<Rightarrow> map Process (snd (scan sep False (buf @ d) 0 0 [])))"

text \<open>The chunks of a list of events, in order, and their bytes.\<close>

fun delivered :: "event list \<Rightarrow> chunk list" where
  "delivered [] = []"
| "delivered (Data c # evs) = c # delivered evs"
| "delivered (ev # evs) = delivered evs"

definition payloads :: "event list \<Rightarrow> string list" where
  "payloads evs = map bytes_of (delivered evs)"

section \<open>The hook registry\<close>

text \<open>
  \<^verbatim>\<open>const Hooks = {}\<close> is a plain object: it maps a namespace to an object that maps
  \<^verbatim>\<open>`${stage}-${name}`\<close> to the array of hooks registered under it, in registration
  order. The stage is \<^verbatim>\<open>'pre'\<close> or \<^verbatim>\<open>'post'\<close>, as the comment on \<^verbatim>\<open>Hooks\<close> says. A hook
  takes the value and the context variables; it returns the next value or fails
  (\<open>Inl\<close>), which is what \<^verbatim>\<open>await hook( value, vars )\<close> raises. The registry is passed
  explicitly.

  A plain object inherits from \<^verbatim>\<open>Object.prototype\<close>. So \<^verbatim>\<open>Hooks[ns]\<close> is the namespace
  object that \<^verbatim>\<open>registerHook\<close> stored under \<open>ns\<close>, or else \<^verbatim>\<open>Object.prototype\<close> itself for
  \<^verbatim>\<open>'__proto__'\<close>, or else the function that \<^verbatim>\<open>Object.prototype\<close> holds under \<open>ns\<close>
  (\<^verbatim>\<open>'toString'\<close>, \<^verbatim>\<open>'constructor'\<close>, ...), or else \<^verbatim>\<open>undefined\<close>. Each of these objects
  has its own properties, and a property that an object does not have itself is read
  from \<^verbatim>\<open>Object.prototype\<close>. The registry is the list of the namespaces stored in
  \<^verbatim>\<open>Hooks\<close> and the hook arrays held by each object under the identifiers; no
  identifier \<^verbatim>\<open>pre-...\<close> or \<^verbatim>\<open>post-...\<close> names a property that these objects have from the
  start.
\<close>

datatype stage = Pre | Post

fun stage_name :: "stage \<Rightarrow> string" where
  "stage_name Pre = ''pre''"
| "stage_name Post = ''post''"

type_synonym ('v, 'c, 'e) hook = "'v \<Rightarrow> 'c \<Rightarrow> 'e + 'v"

datatype object = Object_prototype | Inherited_function string | Namespace_object string

record ('v, 'c, 'e) registry =
  namespaces :: "string list"
  props :: "object \<Rightarrow> (string \<rightharpoonup> ('v, 'c, 'e) hook list)"

definition empty_Hooks :: "('v, 'c, 'e) registry" where
  "empty_Hooks = \<lparr>namespaces = [], props = (\<lambda>obj. Map.empty)\<rparr>"

text \<open>The names of the functions that \<^verbatim>\<open>Object.prototype\<close> holds.\<close>

definition inherited_functions :: "string list" where
  "inherited_functions =
     [''constructor'', ''__defineGetter__'', ''__defineSetter__'', ''hasOwnProperty'',
      ''__lookupGetter__'', ''__lookupSetter__'', ''isPrototypeOf'', ''propertyIsEnumerable'',
      ''toString'', ''valueOf'', ''toLocaleString'']"

text \<open>\<^verbatim>\<open>Hooks[ns]\<close>.\<close>

definition Hooks_get :: "('v, 'c, 'e) registry \<Rightarrow> string \<Rightarrow> object option" where
  "Hooks_get Hooks ns =
     (if ns \<in> set (namespaces Hooks) then Some (Namespace_object ns)
      else if ns = ''__proto__'' then Some Object_prototype
      else if ns \<in> set inherited_functions then Some (Inherited_function ns)
      else None)"

text \<open>\<^verbatim>\<open>obj[id]\<close>: the object's own property, or else the one of \<^verbatim>\<open>Object.prototype\<close>.\<close>

definition get_property :: "('v, 'c, 'e) registry \<Rightarrow> object \<Rightarrow> string \<Rightarrow> ('v, 'c, 'e) hook list option" where
  "get_property Hooks obj hid =
     (case props Hooks obj hid of
        Some hooks \<Rightarrow> Some hooks
      | None \<Rightarrow> props Hooks Object_prototype hid)"

definition set_property :: "object \<Rightarrow> string \<Rightarrow> ('v, 'c, 'e) hook list \<Rightarrow> ('v, 'c, 'e) registry \<Rightarrow> ('v, 'c, 'e) registry" where
  "set_property obj hid hooks Hooks =
     Hooks\<lparr>props := (props Hooks)(obj := (props Hooks obj)(hid \<mapsto> hooks))\<rparr>"

definition hook_id :: "stage \<Rightarrow> string \<Rightarrow> string" where
  "hook_id stage name = stage_name stage @ ''-'' @ name"

text \<open>
  \<^verbatim>\<open>registerHook\<close>. When \<^verbatim>\<open>Hooks[ns]\<close> is falsy a new empty object is stored under \<open>ns\<close>.
  When \<^verbatim>\<open>hookNS[id]\<close> finds an array, \<^verbatim>\<open>hooks.push( hook )\<close> changes that array where it
  is held, which is \<^verbatim>\<open>Object.prototype\<close> when the array was inherited; otherwise
  \<^verbatim>\<open>hookNS[id] = [ hook ]\<close> gives \<open>hookNS\<close> a property of its own.
\<close>

definition registerHook :: "string \<Rightarrow> stage \<Rightarrow> string \<Rightarrow> ('v, 'c, 'e) hook \<Rightarrow> ('v, 'c, 'e) registry \<Rightarrow> ('v, 'c, 'e) registry" where
  "registerHook ns stage name hook Hooks =
     (let Hooks1 =
            (case Hooks_get Hooks ns of
               Some obj \<Rightarrow> Hooks
             | None \<Rightarrow>
                 Hooks\<lparr>namespaces := namespaces Hooks @ [ns],
                       props := (props Hooks)(Namespace_object ns := Map.empty)\<rparr>);
          hookNS =
            (case Hooks_get Hooks ns of Some obj \<Rightarrow> obj | None \<Rightarrow> Namespace_object ns);
          hid = hook_id stage name
      in case props Hooks1 hookNS hid of
           Some hooks \<Rightarrow> set_property hookNS hid (hooks @ [hook]) Hooks1
         | None \<Rightarrow>
             (case props Hooks1 Object_prototype hid of
                Some hooks \<Rightarrow> set_property Object_prototype hid (hooks @ [hook]) Hooks1
              | None \<Rightarrow> set_property hookNS hid [hook] Hooks1))"

text \<open>The loop \<^verbatim>\<open>for( let hook of hooks ) { value = await hook( value, vars ); }\<close>.\<close>

fun call_in_sequence :: "('v, 'c, 'e) hook list \<Rightarrow> ('v, 'c, 'e) hook" where
  "call_in_sequence [] v vars = Inr v"
| "call_in_sequence (hook # hooks) v vars =
     (case hook v vars of Inl e \<Rightarrow> Inl e | Inr v' \<Rightarrow> call_in_sequence hooks v' vars)"

text \<open>\<^verbatim>\<open>hooks = Hooks[ns]; hooks = hooks && hooks[`${stage}-${name}`]\<close>.\<close>

definition lookup_hooks :: "('v, 'c, 'e) registry \<Rightarrow> string \<Rightarrow> stage \<Rightarrow> string \<Rightarrow> ('v, 'c, 'e) hook list option" where
  "lookup_hooks Hooks ns stage name =
     (case Hooks_get Hooks ns of
        None \<Rightarrow> None
      | Some hookNS \<Rightarrow> get_property Hooks hookNS (hook_id stage name))"

definition getCallHooks :: "('v, 'c, 'e) registry \<Rightarrow> string \<Rightarrow> stage \<Rightarrow> string \<Rightarrow> ('v, 'c, 'e) hook" where
  "getCallHooks Hooks ns stage name =
     (case lookup_hooks Hooks ns stage name of
        None \<Rightarrow> (\<lambda>v vars. Inr v)
      | Some hooks \<Rightarrow> if length hooks = 1 then hooks ! 0 else call_in_sequence hooks)"

text \<open>
  A history of registrations, oldest first, the registry it leaves, and the hooks that
  the history registers under one key.
\<close>

type_synonym ('v, 'c, 'e) registration = "string \<times> stage \<times> string \<times> ('v, 'c, 'e) hook"

fun registry_of :: "('v, 'c, 'e) registration list \<Rightarrow> ('v, 'c, 'e) registry \<Rightarrow> ('v, 'c, 'e) registry" where
  "registry_of [] Hooks = Hooks"
| "registry_of ((ns, stage, name, hook) # regs) Hooks =
     registry_of regs (registerHook ns stage name hook Hooks)"

fun registered :: "('v, 'c, 'e) registration list \<Rightarrow> string \<Rightarrow> stage \<Rightarrow> string \<Rightarrow> ('v, 'c, 'e) hook list" where
  "registered [] ns stage name = []"
| "registered ((ns', stage', name', hook) # regs) ns stage name =
     (if ns' = ns \<and> stage' = stage \<and> name' = name
      then hook # registered regs ns stage name
      else registered regs ns stage name)"

text \<open>
  What holds of a registry on which no hook was registered under \<^verbatim>\<open>'__proto__'\<close>:
  \<^verbatim>\<open>Object.prototype\<close> holds no hooks, the names it defines are not stored in \<^verbatim>\<open>Hooks\<close>,
  and an object that was never stored holds nothing.
\<close>

definition clean :: "('v, 'c, 'e) registry \<Rightarrow> bool" where
  "clean Hooks =
     (props Hooks Object_prototype = Map.empty
      \<and> ''__proto__'' \<notin> set (namespaces Hooks)
      \<and> list_all (\<lambda>ns. ns \<notin> set inherited_functions) (namespaces Hooks)
      \<and> (\<forall>ns. ns \<in> set (namespaces Hooks) \<or> props Hooks (Namespace_object ns) = Map.empty))"

section \<open>The transformer\<close>

text \<open>
  The values that an operation or a hook returns: \<^verbatim>\<open>undefined\<close>, \<^verbatim>\<open>null\<close>, booleans,
  integral numbers (below \<open>10\<^sup>2\<^sup>1\<close> in size, which JavaScript prints in plain decimal),
  strings, arrays, and objects as their properties in enumeration order.
\<close>

datatype jsval =
    JUndefined
  | JNull
  | JBool bool
  | JNum int
  | JStr string
  | JArr "jsval list"
  | JObj "(string \<times> jsval) list"

fun typeof :: "jsval \<Rightarrow> string" where
  "typeof JUndefined = ''undefined''"
| "typeof JNull = ''object''"
| "typeof (JBool b) = ''boolean''"
| "typeof (JNum n) = ''number''"
| "typeof (JStr s) = ''string''"
| "typeof (JArr xs) = ''object''"
| "typeof (JObj kvs) = ''object''"

fun Array_isArray :: "jsval \<Rightarrow> bool" where
  "Array_isArray (JArr xs) = True"
| "Array_isArray v = False"

text \<open>
  \<^verbatim>\<open>JSON.stringify\<close> of the JavaScript library on these values. A string is quoted, with
  the quote, the backslash and the control characters escaped; an array element that
  is \<^verbatim>\<open>undefined\<close> is written \<^verbatim>\<open>null\<close>; a property whose value is \<^verbatim>\<open>undefined\<close> is
  left out; \<^verbatim>\<open>JSON.stringify( undefined )\<close> is \<^verbatim>\<open>undefined\<close>.
\<close>

definition hex_digit :: "nat \<Rightarrow> char" where
  "hex_digit n = (if n < 10 then char_of (48 + n) else char_of (87 + n))"

definition escape_char :: "char \<Rightarrow> string" where
  "escape_char c =
     (if c = CHR 0x22 then [CHR 0x5C, CHR 0x22]
      else if c = CHR 0x5C then [CHR 0x5C, CHR 0x5C]
      else if c = CHR 0x08 then [CHR 0x5C, CHR ''b'']
      else if c = CHR 0x09 then [CHR 0x5C, CHR ''t'']
      else if c = CHR 0x0A then [CHR 0x5C, CHR ''n'']
      else if c = CHR 0x0C then [CHR 0x5C, CHR ''f'']
      else if c = CHR 0x0D then [CHR 0x5C, CHR ''r'']
      else if (of_char c :: nat) < 32
        then [CHR 0x5C, CHR ''u'', CHR ''0'', CHR ''0'',
              hex_digit (of_char c div 16), hex_digit (of_char c mod 16)]
      else [c])"

definition quote :: "string \<Rightarrow> string" where
  "quote s = [CHR 0x22] @ concat (map escape_char s) @ [CHR 0x22]"

fun decimal :: "nat \<Rightarrow> string" where
  "decimal n = (if n < 10 then [char_of (48 + n)] else decimal (n div 10) @ [char_of (48 + n mod 10)])"

declare decimal.simps [simp del]

definition number_text :: "int \<Rightarrow> string" where
  "number_text n = (if n < 0 then ''-'' @ decimal (nat (- n)) else decimal (nat n))"

fun commas :: "string list \<Rightarrow> string" where
  "commas [] = []"
| "commas [x] = x"
| "commas (x # y # ys) = x @ '','' @ commas (y # ys)"

fun json_text :: "jsval \<Rightarrow> string" where
  "json_text JUndefined = ''null''"
| "json_text JNull = ''null''"
| "json_text (JBool b) = (if b then ''true'' else ''false'')"
| "json_text (JNum n) = number_text n"
| "json_text (JStr s) = quote s"
| "json_text (JArr xs) = ''['' @ commas (map json_text xs) @ '']''"
| "json_text (JObj kvs) =
     ''{'' @ commas (map (\<lambda>(k, v). quote k @ '':'' @ json_text v)
                      (filter (\<lambda>(k, v). v \<noteq> JUndefined) kvs)) @ ''}''"

definition JSON_stringify :: "jsval \<Rightarrow> jsval" where
  "JSON_stringify v = (if v = JUndefined then JUndefined else JStr (json_text v))"

text \<open>
  \<^verbatim>\<open>outs\<close> is the list of the values passed to \<^verbatim>\<open>outs.write\<close>, in order. The two writes
  \<^verbatim>\<open>outs.write( item ); outs.write('\n')\<close> after the conversion of a value that is not a
  string:
\<close>

definition write_line :: "jsval \<Rightarrow> jsval list \<Rightarrow> jsval list" where
  "write_line item outs =
     (let item' = (if typeof item \<noteq> ''string'' then JSON_stringify item else item)
      in outs @ [item', JStr [CHR 0x0A]])"

text \<open>The part of \<^verbatim>\<open>process\<close> under the comment "Write the result to the output".\<close>

definition write_result :: "bool \<Rightarrow> jsval \<Rightarrow> jsval list \<Rightarrow> jsval list" where
  "write_result multiValue result outs =
     (if result \<noteq> JUndefined then
        (if multiValue \<and> Array_isArray result then
           (case result of
              JArr items \<Rightarrow>
                fold (\<lambda>item outs. if item \<noteq> JUndefined then write_line item outs else outs)
                  items outs
            | _ \<Rightarrow> outs)
         else write_line result outs)
      else outs)"

text \<open>
  \<^verbatim>\<open>process( line )\<close> of \<^verbatim>\<open>recordTransformer\<close>: an asynchronous function, so a failure of
  a hook or of the operation rejects the promise it returns.
\<close>

definition process_line ::
  "(jsval, 'c, 'e) hook \<Rightarrow> (jsval \<Rightarrow> 'e + jsval) \<Rightarrow> (jsval, 'c, 'e) hook \<Rightarrow> 'c \<Rightarrow> bool \<Rightarrow>
   string \<Rightarrow> jsval list \<Rightarrow> 'e outcome \<times> jsval list" where
  "process_line preHooks op postHooks vars multiValue line outs =
     (case preHooks (JStr line) vars of
        Inl e \<Rightarrow> (Rejects e, outs)
      | Inr input \<Rightarrow>
          (case op input of
             Inl e \<Rightarrow> (Rejects e, outs)
           | Inr result \<Rightarrow>
               (case postHooks result vars of
                  Inl e \<Rightarrow> (Rejects e, outs)
                | Inr result' \<Rightarrow> (Returns, write_result multiValue result' outs))))"






text \<open>
  The serialization policy in the words of the specification, to compare the code
  with: nothing for \<^verbatim>\<open>undefined\<close>; a string as it is, then a newline; any other value
  JSON-encoded, then a newline; with \<^verbatim>\<open>multiValue\<close>, each element of an array by the
  same rule, and any other result as a single value.
\<close>

definition spec_serialized :: "jsval \<Rightarrow> jsval list" where
  "spec_serialized v =
     (case v of
        JUndefined \<Rightarrow> []
      | JStr s \<Rightarrow> [JStr s, JStr [CHR 0x0A]]
      | _ \<Rightarrow> [JStr (json_text v), JStr [CHR 0x0A]])"

definition spec_written :: "bool \<Rightarrow> jsval \<Rightarrow> jsval list" where
  "spec_written multiValue result =
     (case result of
        JArr items \<Rightarrow>
          if multiValue then concat (map spec_serialized items) else spec_serialized result
      | _ \<Rightarrow> spec_serialized result)"

section \<open>Steps, step results and pipelines\<close>

text \<open>
  A step function \<^verbatim>\<open>fn( vars, outs, ins )\<close> is given the invocation variables, a sink and
  the readable stream of the step before it (none for the first step). What it does
  is given by the chunks it writes to \<^verbatim>\<open>outs\<close>, as a function of the variables and of
  the chunks that \<^verbatim>\<open>ins\<close> delivers to it, in two parts: the chunks it writes before
  \<^verbatim>\<open>readable()\<close> has handed \<open>outs\<close> over to its caller (during the call of the function,
  for one), and the chunks it writes afterwards, before it ends \<^verbatim>\<open>outs\<close>. Variables that
  are absent or falsy are \<open>None\<close>. The path template evaluator \<^verbatim>\<open>TT.eval\<close>, \<^verbatim>\<open>Path.join\<close>
  and the file system are not part of the repository: the first two are parameters
  (\<open>tt\<close>, \<open>join\<close>), and the file system is a map from paths to the bytes of the files
  that exist.
\<close>

type_synonym path = string

type_synonym 'v stepfn = "'v option \<Rightarrow> string list option \<Rightarrow> string list \<times> string list"

datatype 'v step =
  Step (step_fn: "'v stepfn") (step_cachePath: "path option") (step_prevStep: "'v step option")

record 'v StepResult =
  sr_path :: "path option"
  sr_vars :: "'v option"
  sr_fn :: "'v stepfn"
  sr_input :: "'v step option"

text \<open>
  The world outside a step result: the files, and the step functions called so far, in
  order of the calls.
\<close>

record 'v world =
  files :: "path \<rightharpoonup> string"
  invoked :: "'v stepfn list"

text \<open>
  The constructor: \<^verbatim>\<open>if( path ) { this._path = vars ? TT.eval( path, vars ) : path; ... }\<close>.
  A missing path and the empty string are falsy.
\<close>

definition truthy :: "path option \<Rightarrow> bool" where
  "truthy path = (case path of None \<Rightarrow> False | Some p \<Rightarrow> p \<noteq> [])"

definition new_StepResult ::
  "(path \<Rightarrow> 'v \<Rightarrow> path) \<Rightarrow> path option \<Rightarrow> 'v option \<Rightarrow> 'v stepfn \<Rightarrow> 'v step option \<Rightarrow> 'v StepResult" where
  "new_StepResult tt path vars fn input =
     \<lparr>sr_path =
        (case path of
           None \<Rightarrow> None
         | Some p \<Rightarrow>
             if p \<noteq> [] then Some (case vars of Some v \<Rightarrow> tt p v | None \<Rightarrow> p) else None),
      sr_vars = vars, sr_fn = fn, sr_input = input\<rparr>"

definition Step_invoke :: "(path \<Rightarrow> 'v \<Rightarrow> path) \<Rightarrow> 'v step \<Rightarrow> 'v option \<Rightarrow> 'v StepResult" where
  "Step_invoke tt s vars = new_StepResult tt (step_cachePath s) vars (step_fn s) (step_prevStep s)"

definition exists_file :: "'v world \<Rightarrow> path \<Rightarrow> bool" where
  "exists_file w p = (files w p \<noteq> None)"

definition cached :: "'v StepResult \<Rightarrow> 'v world \<Rightarrow> bool" where
  "cached r w =
     (if \<not> truthy (sr_path r) then False
      else (case sr_path r of Some p \<Rightarrow> exists_file w p | None \<Rightarrow> False))"

text \<open>
  A readable stream is a read stream on a file, or the through stream that \<^verbatim>\<open>_output\<close>
  makes. With a path, \<^verbatim>\<open>FS.createWriteStream\<close> makes the file empty, and the handlers
  of the through stream are
  \<^verbatim>\<open>write( data ) { fouts.write( data ); this.queue( data ); }\<close> and
  \<^verbatim>\<open>end() { fouts.close(); this.queue( null ); }\<close>; without a path the handlers only
  queue. The through stream (a library) is created flowing: \<^verbatim>\<open>queue( data )\<close> emits
  \<^verbatim>\<open>'data'\<close> at once, to the listeners attached at that moment, and keeps nothing for
  a listener that comes later. The sink records which chunks were emitted to a reader
  (\<open>heard\<close>) and which to nobody (\<open>unheard\<close>); a stream that its holder has paused
  counts as listening, since it keeps its chunks until it is resumed.
\<close>

record sink =
  fouts :: "path option"
  listening :: bool
  heard :: "string list"
  unheard :: "string list"
  ended :: bool

text \<open>
  The through stream as \<^verbatim>\<open>readable()\<close> returns it: its state at that moment, and the
  chunks that the step function writes to it afterwards.
\<close>

datatype stream = FileStream path | ThroughStream sink "string list"

definition StepResult_output :: "'v StepResult \<Rightarrow> 'v world \<Rightarrow> sink \<times> 'v world" where
  "StepResult_output r w =
     (if truthy (sr_path r) then
        (case sr_path r of
           Some p \<Rightarrow>
             (\<lparr>fouts = Some p, listening = False, heard = [], unheard = [], ended = False\<rparr>,
              w\<lparr>files := (files w)(p \<mapsto> [])\<rparr>)
         | None \<Rightarrow>
             (\<lparr>fouts = None, listening = False, heard = [], unheard = [], ended = False\<rparr>, w))
      else (\<lparr>fouts = None, listening = False, heard = [], unheard = [], ended = False\<rparr>, w))"

definition fouts_write :: "path \<Rightarrow> string \<Rightarrow> 'v world \<Rightarrow> 'v world" where
  "fouts_write p data w =
     w\<lparr>files := (files w)(p \<mapsto> (case files w p of None \<Rightarrow> data | Some bs \<Rightarrow> bs @ data))\<rparr>"

definition queue :: "string \<Rightarrow> sink \<Rightarrow> sink" where
  "queue data outs =
     (if listening outs then outs\<lparr>heard := heard outs @ [data]\<rparr>
      else outs\<lparr>unheard := unheard outs @ [data]\<rparr>)"

definition through_write :: "string \<Rightarrow> sink \<times> 'v world \<Rightarrow> sink \<times> 'v world" where
  "through_write data ow =
     (case ow of (outs, w) \<Rightarrow>
        (case fouts outs of
           Some p \<Rightarrow> (queue data outs, fouts_write p data w)
         | None \<Rightarrow> (queue data outs, w)))"

definition through_end :: "sink \<times> 'v world \<Rightarrow> sink \<times> 'v world" where
  "through_end ow = (case ow of (outs, w) \<Rightarrow> (outs\<lparr>ended := True\<rparr>, w))"

text \<open>
  A reader takes a stream that \<^verbatim>\<open>readable()\<close> returned, attaches its listeners and reads
  to the end: the chunks it receives, and the world then. A read stream on a file
  delivers the bytes of the file (in one chunk here); a through stream delivers what
  the step function writes from then on.
\<close>

definition read_all :: "stream \<times> 'v world \<Rightarrow> string list \<times> 'v world" where
  "read_all sw =
     (case sw of (s, w) \<Rightarrow>
        (case s of
           FileStream p \<Rightarrow>
             ((case files w p of None \<Rightarrow> [] | Some bs \<Rightarrow> if bs = [] then [] else [bs]), w)
         | ThroughStream outs late \<Rightarrow>
             (case through_end (fold through_write late (outs\<lparr>listening := True\<rparr>, w)) of
                (outs', w') \<Rightarrow> (heard outs', w'))))"

text \<open>
  The rest of \<^verbatim>\<open>readable()\<close> on a cache miss, after the stream of the step before was
  obtained and paused and the sink was opened: \<^verbatim>\<open>this._fn( this._vars, outs, ins )\<close> is
  called (the call is recorded) and becomes the reader of \<^verbatim>\<open>ins\<close>, which is then resumed;
  what the function writes before \<^verbatim>\<open>readable()\<close> has handed \<open>outs\<close> over goes through the
  sink while nobody listens; \<open>outs\<close> is returned with the writes still to come.
\<close>

definition call_fn :: "'v StepResult \<Rightarrow> stream option \<Rightarrow> sink \<times> 'v world \<Rightarrow> stream \<times> 'v world" where
  "call_fn r ins ow =
     (case ow of (outs, w) \<Rightarrow>
        (case (case ins of
                 None \<Rightarrow> (None, w\<lparr>invoked := invoked w @ [sr_fn r]\<rparr>)
               | Some s \<Rightarrow>
                   (case read_all (s, w\<lparr>invoked := invoked w @ [sr_fn r]\<rparr>) of
                      (cs, w') \<Rightarrow> (Some cs, w'))) of
           (input, w1) \<Rightarrow>
             (case sr_fn r (sr_vars r) input of
                (early, late) \<Rightarrow>
                  (case fold through_write early (outs, w1) of
                     (outs', w2) \<Rightarrow> (ThroughStream outs' late, w2)))))"

text \<open>
  \<^verbatim>\<open>StepResult.readable()\<close> and \<^verbatim>\<open>Step.readable( vars )\<close>, which call each other along
  the chain of steps.
\<close>

function StepResult_readable :: "(path \<Rightarrow> 'v \<Rightarrow> path) \<Rightarrow> 'v StepResult \<Rightarrow> 'v world \<Rightarrow> stream \<times> 'v world"
  and Step_readable :: "(path \<Rightarrow> 'v \<Rightarrow> path) \<Rightarrow> 'v step \<Rightarrow> 'v option \<Rightarrow> 'v world \<Rightarrow> stream \<times> 'v world" where
  "StepResult_readable tt r w =
     (if cached r w then
        (case sr_path r of Some p \<Rightarrow> (FileStream p, w) | None \<Rightarrow> (FileStream [], w))
      else
        (case (case sr_input r of
                 None \<Rightarrow> (None, w)
               | Some input \<Rightarrow>
                   (case Step_readable tt input (sr_vars r) w of (s, w') \<Rightarrow> (Some s, w'))) of
           (ins, w1) \<Rightarrow> call_fn r ins (StepResult_output r w1)))"
| "Step_readable tt s vars w = StepResult_readable tt (Step_invoke tt s vars) w"
  by pat_completeness auto
termination
  apply (relation "measure (\<lambda>x. case x of
        Inl (tt, r, w) \<Rightarrow> 2 * size_option size (sr_input r)
      | Inr (tt, s, vars, w) \<Rightarrow> 2 * size s + 1)")
  apply (auto simp: Step_invoke_def new_StepResult_def)
  subgoal for s by (cases s) simp
  done

declare StepResult_readable.simps [simp del]

text \<open>The resolved cache paths of a step and of the steps before it.\<close>

fun step_paths :: "(path \<Rightarrow> 'v \<Rightarrow> path) \<Rightarrow> 'v option \<Rightarrow> 'v step \<Rightarrow> path list" where
  "step_paths tt vars (Step fn cachePath prevStep) =
     (case sr_path (new_StepResult tt cachePath vars fn prevStep) of None \<Rightarrow> [] | Some p \<Rightarrow> [p]) @
     (case prevStep of None \<Rightarrow> [] | Some s \<Rightarrow> step_paths tt vars s)"

text \<open>
  The pipeline builder. \<^verbatim>\<open>init\<close> returns \<^verbatim>\<open>false\<close> (\<open>NoContent\<close>) or the invocation
  variables; the default \<^verbatim>\<open>() => {}\<close> returns \<^verbatim>\<open>undefined\<close>.
\<close>

datatype 'v init_result = NoContent | Vars "'v option"

record ('a, 'v) Pipeline =
  cacheDir :: path
  pl_init :: "'a \<Rightarrow> 'v init_result"
  lastStep :: "'v step option"

definition new_Pipeline :: "path \<Rightarrow> ('a, 'v) Pipeline" where
  "new_Pipeline dir = \<lparr>cacheDir = dir, pl_init = (\<lambda>args. Vars None), lastStep = None\<rparr>"

definition Pipeline_init :: "('a \<Rightarrow> 'v init_result) \<Rightarrow> ('a, 'v) Pipeline \<Rightarrow> ('a, 'v) Pipeline" where
  "Pipeline_init f pl = pl\<lparr>pl_init := f\<rparr>"

definition Pipeline_step ::
  "(path \<Rightarrow> path \<Rightarrow> path) \<Rightarrow> 'v stepfn \<Rightarrow> path option \<Rightarrow> ('a, 'v) Pipeline \<Rightarrow> ('a, 'v) Pipeline" where
  "Pipeline_step join fn cachePath pl =
     (let cachePath' = (if truthy cachePath then map_option (join (cacheDir pl)) cachePath else cachePath)
      in pl\<lparr>lastStep := Some (Step fn cachePath' (lastStep pl))\<rparr>)"

definition Pipeline_open ::
  "(path \<Rightarrow> path \<Rightarrow> path) \<Rightarrow> 'v stepfn \<Rightarrow> path option \<Rightarrow> ('a, 'v) Pipeline \<Rightarrow> ('a, 'v) Pipeline" where
  "Pipeline_open join fn cachePath pl = Pipeline_step join fn cachePath pl"

datatype pipeline_error = No_steps

datatype 'r invocation = No_content | Result 'r

text \<open>
  \<^verbatim>\<open>done( fn )\<close> throws when the pipeline has no step and returns the invocation
  function otherwise; \<open>fn\<close> defaults to \<^verbatim>\<open>( vars, result ) => result\<close>.
\<close>

definition Pipeline_done ::
  "(path \<Rightarrow> 'v \<Rightarrow> path) \<Rightarrow> ('a, 'v) Pipeline \<Rightarrow> ('v option \<Rightarrow> 'v StepResult \<Rightarrow> 'r) \<Rightarrow>
   pipeline_error + ('a \<Rightarrow> 'r invocation)" where
  "Pipeline_done tt pl fn =
     (case lastStep pl of
        None \<Rightarrow> Inl No_steps
      | Some final \<Rightarrow>
          Inr (\<lambda>args.
            (case pl_init pl args of
               NoContent \<Rightarrow> No_content
             | Vars vars \<Rightarrow> Result (fn vars (Step_invoke tt final vars)))))"

definition default_fn :: "'v option \<Rightarrow> 'v StepResult \<Rightarrow> 'v StepResult" where
  "default_fn vars result = result"

text \<open>
  For the statements below: the chunks that the step function of a result writes on a
  cache miss, before and after \<^verbatim>\<open>readable()\<close> returns.
\<close>

definition fn_output :: "(path \<Rightarrow> 'v \<Rightarrow> path) \<Rightarrow> 'v StepResult \<Rightarrow> 'v world \<Rightarrow> string list \<times> string list" where
  "fn_output tt r w =
     (case sr_input r of
        None \<Rightarrow> sr_fn r (sr_vars r) None
      | Some input \<Rightarrow>
          (case Step_readable tt input (sr_vars r) w of
             (s, w1) \<Rightarrow>
               (case StepResult_output r w1 of
                  (outs, w2) \<Rightarrow>
                    sr_fn r (sr_vars r)
                      (Some (fst (read_all (s, w2\<lparr>invoked := invoked w2 @ [sr_fn r]\<rparr>)))))))"

text \<open>Building the invocation function with \<^verbatim>\<open>done\<close> and calling it.\<close>

definition Pipeline_invoke ::
  "(path \<Rightarrow> 'v \<Rightarrow> path) \<Rightarrow> ('a, 'v) Pipeline \<Rightarrow> ('v option \<Rightarrow> 'v StepResult \<Rightarrow> 'r) \<Rightarrow> 'a \<Rightarrow>
   pipeline_error + 'r invocation" where
  "Pipeline_invoke tt pl fn args =
     (case Pipeline_done tt pl fn of Inl e \<Rightarrow> Inl e | Inr run \<Rightarrow> Inr (run args))"

section \<open>Sending a step result to a response\<close>

text \<open>
  \<^verbatim>\<open>StepResult.send( res, headers )\<close> attaches three handlers to the readable stream.
  The response is the list of the calls made on \<^verbatim>\<open>res\<close>. The error handler starts with
  \<^verbatim>\<open>Log.error( ... )\<close>; \<^verbatim>\<open>Log\<close> is not declared in the module, so whether the host defines
  such a global is a parameter, and without it the handler stops there with a
  \<^verbatim>\<open>ReferenceError\<close>. \<^verbatim>\<open>readable()\<close> always returns a stream, so the branch for a
  missing stream is left out, and the calls on \<^verbatim>\<open>res\<close> are taken not to throw.
\<close>

datatype 'h res_call = Res_set 'h | Res_write string | Res_sendStatus nat | Res_end

datatype stream_event = On_data string | On_end | On_error string

datatype send_error = ReferenceError

record 'h sending =
  writeStarted :: bool
  res :: "'h res_call list"
  thrown :: "send_error list"

fun send_on :: "bool \<Rightarrow> 'h \<Rightarrow> 'h sending \<Rightarrow> stream_event \<Rightarrow> 'h sending" where
  "send_on has_Log headers st (On_data data) =
     (if length data > 0 then
        (if \<not> writeStarted st
         then st\<lparr>writeStarted := True, res := res st @ [Res_set headers, Res_write data]\<rparr>
         else st\<lparr>res := res st @ [Res_write data]\<rparr>)
      else st)"
| "send_on has_Log headers st On_end =
     (if \<not> writeStarted st
      then st\<lparr>res := res st @ [Res_sendStatus 204, Res_end]\<rparr>
      else st\<lparr>res := res st @ [Res_end]\<rparr>)"
| "send_on has_Log headers st (On_error code) =
     (if \<not> has_Log then st\<lparr>thrown := thrown st @ [ReferenceError]\<rparr>
      else if writeStarted st then st\<lparr>res := res st @ [Res_end]\<rparr>
      else
        (let st1 = (if code = ''ENOENT'' then st\<lparr>res := res st @ [Res_sendStatus 404]\<rparr> else st)
         in st1\<lparr>res := res st1 @ [Res_sendStatus 500]\<rparr>))"

definition send :: "bool \<Rightarrow> 'h \<Rightarrow> stream_event list \<Rightarrow> 'h sending" where
  "send has_Log headers ins =
     foldl (send_on has_Log headers) \<lparr>writeStarted = False, res = [], thrown = []\<rparr> ins"

section \<open>Example inputs\<close>

text \<open>
  Three \<^verbatim>\<open>process\<close> functions whose closure keeps the lines received: one that
  accepts every line, one that throws on its second call, and one that returns a
  rejected promise on its second call.
\<close>

definition accept :: "string \<Rightarrow> string list \<Rightarrow> string outcome \<times> string list" where
  "accept line seen = (Returns, seen @ [line])"

definition throw_on_second :: "string \<Rightarrow> string list \<Rightarrow> string outcome \<times> string list" where
  "throw_on_second line seen = (if length seen = 1 then Throws ''boom'' else Returns, seen @ [line])"

definition reject_on_second :: "string \<Rightarrow> string list \<Rightarrow> string outcome \<times> string list" where
  "reject_on_second line seen = (if length seen = 1 then Rejects ''boom'' else Returns, seen @ [line])"

text \<open>Hooks on numbers: one adds the context variable, one doubles, one fails.\<close>

definition plus_vars :: "(nat, nat, string) hook" where
  "plus_vars v vars = Inr (v + vars)"

definition twice :: "(nat, nat, string) hook" where
  "twice v vars = Inr (2 * v)"

definition failing :: "(nat, nat, string) hook" where
  "failing v vars = Inl ''no''"


definition xy_op :: "jsval \<Rightarrow> string + jsval" where
  "xy_op v = Inr (JArr [JStr ''x'', JObj [(''y'', JNum 1)]])"



definition no_hooks :: "(jsval, unit, string) registry" where
  "no_hooks = empty_Hooks"

text \<open>
  For the pipeline: a template evaluator, a path join, two step functions that write
  after \<^verbatim>\<open>readable()\<close> has returned, the pipeline of the two, the result of its second
  step for the variables \<^verbatim>\<open>k\<close>, and two worlds; a first step that writes \<^verbatim>\<open>hello\<close> during
  its call and \<^verbatim>\<open>world\<close> later, one that writes both during its call, and the result of
  the first of them.
\<close>

definition tt_suffix :: "path \<Rightarrow> string \<Rightarrow> path" where
  "tt_suffix p v = p @ ''-'' @ v"

definition join_slash :: "path \<Rightarrow> path \<Rightarrow> path" where
  "join_slash dir p = dir @ ''/'' @ p"

definition greet :: "string stepfn" where
  "greet vars ins = ([], [''hello '', ''world''])"

definition exclaim :: "string stepfn" where
  "exclaim vars ins = ([], case ins of None \<Rightarrow> [] | Some cs \<Rightarrow> [concat cs @ ''!''])"

definition announce :: "string stepfn" where
  "announce vars ins = ([''hello ''], [''world''])"

definition at_once :: "string stepfn" where
  "at_once vars ins = ([''hello '', ''world''], [])"

definition two_steps :: "(string, string) Pipeline" where
  "two_steps =
     Pipeline_step join_slash exclaim (Some ''out'')
       (Pipeline_open join_slash greet (Some ''in'')
          (Pipeline_init (\<lambda>args. Vars (Some args)) (new_Pipeline ''cache'')))"

definition second_result :: "string StepResult" where
  "second_result =
     \<lparr>sr_path = Some ''cache/out-k'', sr_vars = Some ''k'', sr_fn = exclaim,
      sr_input = Some (Step greet (Some ''cache/in'') None)\<rparr>"

definition announce_result :: "string StepResult" where
  "announce_result =
     \<lparr>sr_path = Some ''cache/in-k'', sr_vars = Some ''k'', sr_fn = announce, sr_input = None\<rparr>"

definition second_cached :: "string world" where
  "second_cached = \<lparr>files = [''cache/out-k'' \<mapsto> ''old''], invoked = []\<rparr>"

definition nothing_cached :: "string world" where
  "nothing_cached = \<lparr>files = Map.empty, invoked = []\<rparr>"

text \<open>The cache file that a stream writes to, if any.\<close>

fun stream_path :: "stream \<Rightarrow> path option" where
  "stream_path (FileStream p) = None"
| "stream_path (ThroughStream outs late) = fouts outs"

section \<open>Properties of the field parser\<close>

subsection \<open>The scan against the reference cut\<close>

lemma append_input_eq:
  "append_input sep data st =
     (if processing st
      then st\<lparr>buffer := next_buffer sep (arrived data) (buffer st),
              processing := (arrived data \<noteq> None),
              pending := pending st @ next_tasks sep (arrived data) (buffer st)\<rparr>
      else st)"
proof (cases "truthy_data data")
  case True
  then obtain c where "data = Some c" by (cases data) auto
  with True show ?thesis
    by (auto simp: append_input_def arrived_def next_buffer_def next_tasks_def Let_def
        split: prod.splits)
next
  case False
  then show ?thesis
    by (auto simp: append_input_def arrived_def next_buffer_def next_tasks_def Let_def
        split: prod.splits)
qed

lemma slice_snoc:
  "i \<le> j \<Longrightarrow> j < length buf \<Longrightarrow> slice buf i (Suc j) = slice buf i j @ [buf ! j]"
  by (simp add: slice_def Suc_diff_le take_Suc_conv_app_nth)

lemma scan_splitr:
  "\<not> c \<Longrightarrow> i \<le> j \<Longrightarrow> j \<le> length buf \<Longrightarrow>
     scan sep c buf i j ls =
       (length buf - length (snd (splitr sep (slice buf i j) (drop j buf))),
        ls @ fst (splitr sep (slice buf i j) (drop j buf)))"
proof (induction sep c buf i j ls rule: scan.induct)
  case (1 sep c buf i j ls)
  show ?case
  proof (cases "j < length buf")
    case False
    with "1.prems" have "j = length buf" by simp
    with "1.prems" show ?thesis
      by (subst scan.simps) (simp add: slice_def)
  next
    case True
    then have d: "drop j buf = buf ! j # drop (Suc j) buf"
      by (simp add: Cons_nth_drop_Suc)
    show ?thesis
    proof (cases "buf ! j = sep")
      case yes: True
      from "1.IH"(1) [OF True] yes True "1.prems"
      have "scan sep c buf (j + 1) (j + 1) (ls @ [slice buf i j]) =
        (length buf - length (snd (splitr sep (slice buf (j + 1) (j + 1)) (drop (j + 1) buf))),
         (ls @ [slice buf i j]) @ fst (splitr sep (slice buf (j + 1) (j + 1)) (drop (j + 1) buf)))"
        by simp
      with yes True d show ?thesis
        by (subst scan.simps) (simp add: slice_def)
    next
      case no: False
      from "1.IH"(2) [OF True] no True "1.prems"
      have "scan sep c buf i (j + 1) ls =
        (length buf - length (snd (splitr sep (slice buf i (j + 1)) (drop (j + 1) buf))),
         ls @ fst (splitr sep (slice buf i (j + 1)) (drop (j + 1) buf)))"
        by simp
      with no True d "1.prems" show ?thesis
        by (subst scan.simps) (simp add: slice_snoc)
    qed
  qed
qed

lemma splitr_suffix:
  "length (snd (splitr sep acc xs)) \<le> length acc + length xs \<and>
   drop (length acc + length xs - length (snd (splitr sep acc xs))) (acc @ xs) = snd (splitr sep acc xs)"
proof (induction xs arbitrary: acc)
  case Nil
  show ?case by simp
next
  case (Cons c cs)
  show ?case
  proof (cases "c = sep")
    case True
    from Cons.IH [of "[]"] have a: "length (snd (splitr sep [] cs)) \<le> length cs"
      and b: "drop (length cs - length (snd (splitr sep [] cs))) cs = snd (splitr sep [] cs)"
      by simp_all
    have "length acc + length (c # cs) - length (snd (splitr sep [] cs)) =
          length acc + 1 + (length cs - length (snd (splitr sep [] cs)))"
      using a by simp
    then have "drop (length acc + length (c # cs) - length (snd (splitr sep [] cs))) (acc @ c # cs) =
          drop (length cs - length (snd (splitr sep [] cs))) cs"
      using a by (simp add: Suc_diff_le)
    with True a b show ?thesis by simp
  next
    case False
    with Cons.IH [of "acc @ [c]"] show ?thesis by simp
  qed
qed

lemma scan_start:
  "scan sep False buf 0 0 [] =
     (length buf - length (snd (splitr sep [] buf)), fst (splitr sep [] buf))"
  using scan_splitr [of False 0 0 buf sep "[]"] by (simp add: slice_def)

lemma next_buffer_Some: "next_buffer sep (Some d) buf = snd (splitr sep [] (buf @ d))"
  using splitr_suffix [of sep "[]" "buf @ d"] by (simp add: next_buffer_def scan_start)

lemma next_tasks_Some: "next_tasks sep (Some d) buf = map Process (fst (splitr sep [] (buf @ d)))"
  by (simp add: next_tasks_def scan_start)

lemma splitr_shift:
  "sep \<notin> set b \<Longrightarrow> splitr sep a (b @ xs) = splitr sep (a @ b) xs"
  by (induction b arbitrary: a) auto

lemma splitr_rest: "sep \<notin> set acc \<Longrightarrow> sep \<notin> set (snd (splitr sep acc xs))"
  by (induction xs arbitrary: acc) auto

lemma splitr_append:
  "splitr sep acc (xs @ ys) =
     (fst (splitr sep acc xs) @ fst (splitr sep (snd (splitr sep acc xs)) ys),
      snd (splitr sep (snd (splitr sep acc xs)) ys))"
  by (induction xs arbitrary: acc) auto

lemma splitr_two_chunks:
  "splitr sep [] (buf @ a @ b) =
     (fst (splitr sep [] (buf @ a)) @ fst (splitr sep [] (snd (splitr sep [] (buf @ a)) @ b)),
      snd (splitr sep [] (snd (splitr sep [] (buf @ a)) @ b)))"
proof -
  have "sep \<notin> set (snd (splitr sep [] (buf @ a)))" by (rule splitr_rest) simp
  then have "splitr sep [] (snd (splitr sep [] (buf @ a)) @ b) =
             splitr sep (snd (splitr sep [] (buf @ a))) b"
    using splitr_shift [of sep _ "[]" b] by simp
  moreover have "splitr sep [] ((buf @ a) @ b) =
     (fst (splitr sep [] (buf @ a)) @ fst (splitr sep (snd (splitr sep [] (buf @ a))) b),
      snd (splitr sep (snd (splitr sep [] (buf @ a))) b))"
    by (rule splitr_append)
  ultimately show ?thesis by simp
qed

lemma arrived_truthy: "truthy_data (Some c) \<Longrightarrow> arrived (Some c) = Some (bytes_of c)"
  by (simp add: arrived_def)

lemma append_input_two_chunks:
  "truthy_data (Some a) \<Longrightarrow> truthy_data (Some b) \<Longrightarrow>
     append_input sep (Some b) (append_input sep (Some a) st) =
       append_input sep (Some (Buf (bytes_of a @ bytes_of b))) st"
  by (simp add: append_input_eq arrived_truthy next_buffer_Some next_tasks_Some
      splitr_two_chunks [of sep "buffer st" "bytes_of a" "bytes_of b"])

lemma append_input_chunks:
  "list_all (\<lambda>c. truthy_data (Some c)) cs \<Longrightarrow>
     foldl (handle sep process) (init s) (map Data cs) =
       append_input sep (Some (Buf (concat (map bytes_of cs)))) (init s)"
proof (induction cs rule: rev_induct)
  case Nil
  show ?case
    by (simp add: append_input_eq arrived_truthy next_buffer_Some next_tasks_Some init_def)
next
  case (snoc c cs)
  then show ?case
    using append_input_two_chunks [of "Buf (concat (map bytes_of cs))" c sep "init s"]
    by simp
qed

lemma delivered_truthy:
  "Data (Str []) \<notin> set evs \<Longrightarrow> list_all (\<lambda>c. truthy_data (Some c)) (delivered evs)"
proof (induction evs)
  case Nil
  show ?case by simp
next
  case (Cons ev evs)
  show ?case
  proof (cases ev)
    case (Data c)
    with Cons show ?thesis by (cases c) auto
  next
    case Close
    with Cons show ?thesis by simp
  next
    case Tick
    with Cons show ?thesis by simp
  qed
qed

subsection \<open>Callbacks that run between events\<close>

lemma drain_tick: "drain process (tick process st) = drain process st"
proof (cases "pending st = []")
  case True
  then show ?thesis by (simp add: tick_def)
next
  case False
  then show ?thesis by (subst (2) drain.simps) simp
qed

lemma tick_append_input:
  assumes "\<forall>line s e. fst (process line s) \<noteq> Throws e" and "pending st \<noteq> []"
  shows "append_input sep d (tick process st) = tick process (append_input sep d st)"
proof -
  obtain t ts where p: "pending st = t # ts" using assms(2) by (cases "pending st") auto
  show ?thesis
  proof (cases "chain st")
    case (Some e)
    with p show ?thesis by (simp add: append_input_eq tick_def)
  next
    case None
    show ?thesis
    proof (cases t)
      case (Process line)
      obtain r s' where r: "process line (env st) = (r, s')" by (cases "process line (env st)")
      with assms(1) have "\<forall>e. r \<noteq> Throws e" by (metis fst_conv)
      with p None Process r show ?thesis
        by (cases r) (auto simp: append_input_eq tick_def)
    next
      case (Reject e)
      with p None show ?thesis by (simp add: append_input_eq tick_def)
    next
      case Resolve
      with p None show ?thesis by (simp add: append_input_eq tick_def)
    qed
  qed
qed

lemma tick_handle:
  assumes "\<forall>line s e. fst (process line s) \<noteq> Throws e"
  shows "\<exists>st'. handle sep process (tick process st) ev = st' \<and>
     (st' = handle sep process st ev \<or> st' = tick process (handle sep process st ev))"
proof (cases "pending st = []")
  case True
  then show ?thesis by (simp add: tick_def)
next
  case False
  with assms show ?thesis by (cases ev) (simp_all add: tick_append_input)
qed

lemma drain_run_tick:
  assumes "\<forall>line s e. fst (process line s) \<noteq> Throws e"
  shows "drain process (foldl (handle sep process) (tick process st) evs) =
         drain process (foldl (handle sep process) st evs)"
proof (induction evs arbitrary: st)
  case Nil
  show ?case by (simp add: drain_tick)
next
  case (Cons ev evs)
  from tick_handle [OF assms, of sep st ev]
  consider "handle sep process (tick process st) ev = handle sep process st ev"
    | "handle sep process (tick process st) ev = tick process (handle sep process st ev)"
    by auto
  then show ?case
  proof cases
    case 1
    then show ?thesis by simp
  next
    case 2
    then show ?thesis using Cons.IH [of "handle sep process st ev"] by simp
  qed
qed

lemma drain_run_payloads:
  assumes "\<forall>line s e. fst (process line s) \<noteq> Throws e" and "Close \<notin> set evs"
  shows "drain process (foldl (handle sep process) st (evs @ rest)) =
         drain process (foldl (handle sep process) st (map Data (delivered evs) @ rest))"
  using assms(2)
proof (induction evs arbitrary: st)
  case Nil
  show ?case by simp
next
  case (Cons ev evs)
  show ?case
  proof (cases ev)
    case (Data d)
    with Cons show ?thesis by simp
  next
    case Close
    with Cons.prems show ?thesis by simp
  next
    case Tick
    have "drain process (foldl (handle sep process) st ((ev # evs) @ rest)) =
          drain process (foldl (handle sep process) (tick process st) (evs @ rest))"
      using Tick by simp
    also have "\<dots> = drain process (foldl (handle sep process) st (evs @ rest))"
      by (rule drain_run_tick [OF assms(1)])
    also have "\<dots> = drain process (foldl (handle sep process) st (map Data (delivered evs) @ rest))"
      using Cons by simp
    finally show ?thesis using Tick by simp
  qed
qed

subsection \<open>The claims about the parser\<close>

text \<open>
  C1. The claim: when the stream closes while the buffer still holds bytes, those bytes
  are one last record, so \<^verbatim>\<open>"a,b,c"\<close> with separator \<^verbatim>\<open>,\<close> gives the records \<^verbatim>\<open>a\<close>, \<^verbatim>\<open>b\<close>,
  \<^verbatim>\<open>c\<close>, and an empty input gives no record and resolves. The code cuts the last record
  with \<^verbatim>\<open>buffer.slice( i, j )\<close> at \<^verbatim>\<open>j == end\<close>, which leaves the last byte out: the
  calls are \<^verbatim>\<open>a\<close>, \<^verbatim>\<open>b\<close> and the empty string, and \<^verbatim>\<open>"a,b,cd"\<close> gives \<^verbatim>\<open>a\<close>, \<^verbatim>\<open>b\<close>, \<^verbatim>\<open>c\<close>.
  The part about the empty input holds.
\<close>

theorem fieldParser_trailing_record_loses_last_byte:
  "calls (fieldParser [Data (Buf ''a,b,c''), Tick, Tick, Close] accept (CHR '','') []) = [''a'', ''b'', []]
   \<and> calls (fieldParser [Data (Buf ''a,b,cd''), Tick, Tick, Close] accept (CHR '','') []) = [''a'', ''b'', ''c'']
   \<and> calls (fieldParser [Close] accept (CHR '','') []) = []
   \<and> settled (fieldParser [Close] accept (CHR '','') []) = Resolved"
  by (simp add: fieldParser_def init_def append_input_def scan.simps slice_def tick_def
      drain.simps accept_def settle_def)

text \<open>
  C3. The claim: when \<^verbatim>\<open>process\<close> throws or rejects on record 2 of an input of at least
  five records, \<^verbatim>\<open>process\<close> is called exactly twice and the promise of the parser
  rejects with that error. The code, on five records that arrive in one chunk, with all
  callbacks run before the stream closes: when the second call throws, the callbacks of
  records 3 to 5 are already chained and run, so \<^verbatim>\<open>process\<close> is called five times
  before the promise rejects; when the second call returns a rejected promise, the
  \<^verbatim>\<open>try\<close> does not catch it, \<^verbatim>\<open>process\<close> is called twice, and the promise of the parser
  is never settled.
\<close>

theorem fieldParser_error_not_short_circuited:
  "calls (fieldParser [Data (Buf ''1,2,3,4,5,''), Tick, Tick, Tick, Tick, Tick, Tick, Close]
            throw_on_second (CHR '','') []) = [''1'', ''2'', ''3'', ''4'', ''5'']
   \<and> settled (fieldParser [Data (Buf ''1,2,3,4,5,''), Tick, Tick, Tick, Tick, Tick, Tick, Close]
            throw_on_second (CHR '','') []) = Rejected ''boom''
   \<and> calls (fieldParser [Data (Buf ''1,2,3,4,5,''), Tick, Tick, Tick, Tick, Tick, Tick, Close]
            reject_on_second (CHR '','') []) = [''1'', ''2'']
   \<and> settled (fieldParser [Data (Buf ''1,2,3,4,5,''), Tick, Tick, Tick, Tick, Tick, Tick, Close]
            reject_on_second (CHR '','') []) = Unsettled"
  by (simp add: fieldParser_def init_def append_input_def scan.simps slice_def tick_def
      drain.simps throw_on_second_def reject_on_second_def settle_def)

text \<open>
  C4. The claim: for every sequence of bytes and every way of splitting it into
  delivered chunks, the parser produces the same records as on the whole sequence in
  one chunk. The code reads a chunk that is the empty string as the completion
  (\<^verbatim>\<open>if( data )\<close>, \<^verbatim>\<open>isComplete = !data\<close>), so the chunks after it are dropped: the
  strings \<^verbatim>\<open>"a,"\<close>, \<^verbatim>\<open>""\<close>, \<^verbatim>\<open>"b,"\<close> give the record \<^verbatim>\<open>a\<close> alone, and \<^verbatim>\<open>"a,b,"\<close> in one
  chunk gives \<^verbatim>\<open>a\<close> and \<^verbatim>\<open>b\<close>. With a \<^verbatim>\<open>process\<close> that throws on its second call, the
  chunks \<^verbatim>\<open>"1,2,"\<close> and \<^verbatim>\<open>"3,"\<close>, with the callbacks run in between, give two calls, and
  \<^verbatim>\<open>"1,2,3,"\<close> in one chunk gives three.
\<close>

theorem fieldParser_chunking_changes_the_records:
  "calls (fieldParser [Data (Str ''a,''), Tick, Data (Str []), Tick, Data (Str ''b,''), Tick, Close]
            accept (CHR '','') []) = [''a'']
   \<and> calls (fieldParser [Data (Str ''a,b,''), Tick, Tick, Close] accept (CHR '','') []) = [''a'', ''b'']
   \<and> calls (fieldParser [Data (Buf ''1,2,''), Tick, Tick, Tick, Data (Buf ''3,''), Tick, Close]
            throw_on_second (CHR '','') []) = [''1'', ''2'']
   \<and> calls (fieldParser [Data (Buf ''1,2,3,''), Tick, Tick, Tick, Tick, Close]
            throw_on_second (CHR '','') []) = [''1'', ''2'', ''3'']"
  by (simp add: fieldParser_def init_def append_input_def scan.simps slice_def tick_def
      drain.simps accept_def throw_on_second_def settle_def)

text \<open>
  What does hold: for every delivery whose chunks are buffers, empty ones included, or
  strings that are not empty, with the callbacks of the chain running at any moments
  between the chunks, and for every \<^verbatim>\<open>process\<close> that does not throw (it may return
  promises that reject), the parser ends in the same state as on the whole sequence
  delivered in one chunk: the same calls of \<^verbatim>\<open>process\<close> in the same order, the same
  state of its closure and the same outcome of the promise. \<open>evs\<close> is the delivery
  before the close.
\<close>

lemma fieldParser_chunking_without_failure:
  assumes "\<forall>line s e. fst (process line s) \<noteq> Throws e"
    and "Close \<notin> set evs" and "Data (Str []) \<notin> set evs"
  shows "calls (fieldParser (evs @ [Close]) process sep s) =
           calls (fieldParser [Data (Buf (concat (payloads evs))), Close] process sep s)
         \<and> fieldParser (evs @ [Close]) process sep s =
           fieldParser [Data (Buf (concat (payloads evs))), Close] process sep s"
proof -
  have "fieldParser (evs @ [Close]) process sep s =
        drain process (foldl (handle sep process) (init s) (map Data (delivered evs) @ [Close]))"
    unfolding fieldParser_def by (rule drain_run_payloads [OF assms(1,2)])
  also have "\<dots> = fieldParser [Data (Buf (concat (payloads evs))), Close] process sep s"
    using delivered_truthy [OF assms(3)]
    by (simp add: fieldParser_def append_input_chunks payloads_def)
  finally show ?thesis by simp
qed

lemma fieldParser_chunking_without_failure_example:
  "calls (fieldParser ([Data (Buf ''a,''), Tick, Data (Buf []), Data (Str ''b''), Data (Buf '',cd'')] @ [Close])
        reject_on_second (CHR '','') []) = [''a'', ''b'']
   \<and> calls (fieldParser ([Data (Buf ''a,''), Tick, Data (Buf []), Data (Str ''b''), Data (Buf '',cd'')] @ [Close])
        accept (CHR '','') []) = [''a'', ''b'', ''c'']"
proof -
  have a: "\<forall>line s e. fst (reject_on_second line s) \<noteq> Throws e"
    by (simp add: reject_on_second_def)
  have b: "\<forall>line s e. fst (accept line s) \<noteq> (Throws e :: string outcome)"
    by (simp add: accept_def)
  have c: "Close \<notin> set [Data (Buf ''a,''), Tick, Data (Buf []), Data (Str ''b''), Data (Buf '',cd'')]"
    by simp
  have c': "Data (Str []) \<notin> set [Data (Buf ''a,''), Tick, Data (Buf []), Data (Str ''b''), Data (Buf '',cd'')]"
    by simp
  have d: "calls (fieldParser [Data (Buf ''a,b,cd''), Close] reject_on_second (CHR '','') []) = [''a'', ''b'']"
    by (simp add: fieldParser_def init_def append_input_def scan.simps slice_def tick_def
        drain.simps reject_on_second_def settle_def)
  have e: "calls (fieldParser [Data (Buf ''a,b,cd''), Close] accept (CHR '','') []) = [''a'', ''b'', ''c'']"
    by (simp add: fieldParser_def init_def append_input_def scan.simps slice_def tick_def
        drain.simps accept_def settle_def)
  from fieldParser_chunking_without_failure [OF a c c', of "CHR '',''" "[]"]
       fieldParser_chunking_without_failure [OF b c c', of "CHR '',''" "[]"]
  show ?thesis using d e by (simp add: payloads_def)
qed

section \<open>Properties of the hook registry\<close>

text \<open>
  C7. The claim: for every key \<open>(ns, stage, name)\<close>, with no hook registered under it
  \<^verbatim>\<open>getCallHooks\<close> returns the function that returns its value argument, with one hook
  that hook, with two their composition. \<^verbatim>\<open>Hooks\<close> is a plain object, so
  \<^verbatim>\<open>registerHook( '__proto__', 'pre', 'parse', h )\<close> stores the array on
  \<^verbatim>\<open>Object.prototype\<close>, and every namespace object inherits it: after that registration
  and one under \<open>(build, post, parse)\<close>, no hook is registered under
  \<open>(build, pre, parse)\<close>, and \<^verbatim>\<open>getCallHooks( 'build', 'pre', 'parse' )\<close> returns \<open>h\<close>, not
  the identity. Without the first registration it returns the identity.
\<close>

theorem getCallHooks_inherits_hooks_of_proto:
  "registered [(''__proto__'', Pre, ''parse'', twice), (''build'', Post, ''parse'', plus_vars)]
      ''build'' Pre ''parse'' = []
   \<and> getCallHooks
        (registry_of [(''__proto__'', Pre, ''parse'', twice), (''build'', Post, ''parse'', plus_vars)]
           empty_Hooks) ''build'' Pre ''parse'' 3 10 = Inr 6
   \<and> getCallHooks (registry_of [(''build'', Post, ''parse'', plus_vars)] empty_Hooks)
        ''build'' Pre ''parse'' 3 10 = Inr 3"
  by (simp add: getCallHooks_def lookup_hooks_def get_property_def Hooks_get_def registerHook_def
      set_property_def empty_Hooks_def inherited_functions_def hook_id_def Let_def twice_def)

text \<open>
  What does hold: for every key and every history of registrations none of which is
  under the namespace \<^verbatim>\<open>'__proto__'\<close>, whatever the history registers under other keys,
  \<^verbatim>\<open>getCallHooks\<close> returns the identity when no hook is registered under the key, the
  hook itself when there is one, and for \<open>h1\<close> then \<open>h2\<close> the function that calls \<open>h1\<close>
  and then \<open>h2\<close> on its result with the same variables.
\<close>

lemma hook_id_inject: "hook_id stage name = hook_id stage' name' \<longleftrightarrow> stage = stage' \<and> name = name'"
  by (cases stage; cases stage') (auto simp: hook_id_def)

lemma Hooks_get_clean:
  "clean Hooks \<Longrightarrow> Hooks_get Hooks ns = Some obj \<Longrightarrow>
     obj = Object_prototype \<and> ns = ''__proto__''
     \<or> obj = Inherited_function ns \<and> ns \<in> set inherited_functions \<and> ns \<notin> set (namespaces Hooks)
     \<or> obj = Namespace_object ns \<and> ns \<in> set (namespaces Hooks)"
  by (auto simp: Hooks_get_def clean_def list_all_iff split: if_splits)

lemma clean_registerHook:
  assumes "clean Hooks" and "ns' \<noteq> ''__proto__''"
  shows "clean (registerHook ns' stage' name' hook Hooks)"
proof (cases "Hooks_get Hooks ns'")
  case None
  then have "ns' \<notin> set inherited_functions" "ns' \<notin> set (namespaces Hooks)"
    by (auto simp: Hooks_get_def split: if_splits)
  with assms None show ?thesis
    by (auto simp: registerHook_def Let_def clean_def set_property_def list_all_iff)
next
  case (Some obj)
  from Hooks_get_clean [OF assms(1) Some] assms Some show ?thesis
    by (auto simp: registerHook_def Let_def clean_def set_property_def list_all_iff
        split: option.splits)
qed

lemma lookup_clean:
  "clean Hooks \<Longrightarrow>
     lookup_hooks Hooks ns stage name =
       (case Hooks_get Hooks ns of None \<Rightarrow> None | Some obj \<Rightarrow> props Hooks obj (hook_id stage name))"
  by (auto simp: lookup_hooks_def get_property_def clean_def split: option.splits)

lemma registerHook_clean:
  assumes "clean Hooks" and "ns' \<noteq> ''__proto__''"
  shows "props (registerHook ns' stage' name' hook Hooks) =
           (props Hooks)
             ((case Hooks_get Hooks ns' of Some obj \<Rightarrow> obj | None \<Rightarrow> Namespace_object ns') :=
                (props Hooks
                   (case Hooks_get Hooks ns' of Some obj \<Rightarrow> obj | None \<Rightarrow> Namespace_object ns'))
                  (hook_id stage' name' \<mapsto>
                     (case props Hooks
                        (case Hooks_get Hooks ns' of Some obj \<Rightarrow> obj | None \<Rightarrow> Namespace_object ns')
                        (hook_id stage' name') of None \<Rightarrow> [] | Some hs \<Rightarrow> hs) @ [hook]))"
    and "namespaces (registerHook ns' stage' name' hook Hooks) =
           (if Hooks_get Hooks ns' = None then namespaces Hooks @ [ns'] else namespaces Hooks)"
proof -
  from assms(1) have p: "props Hooks Object_prototype = Map.empty" by (simp add: clean_def)
  show "namespaces (registerHook ns' stage' name' hook Hooks) =
           (if Hooks_get Hooks ns' = None then namespaces Hooks @ [ns'] else namespaces Hooks)"
    using p by (cases "Hooks_get Hooks ns'")
      (simp_all add: registerHook_def Let_def set_property_def split: option.splits)
  show "props (registerHook ns' stage' name' hook Hooks) =
           (props Hooks)
             ((case Hooks_get Hooks ns' of Some obj \<Rightarrow> obj | None \<Rightarrow> Namespace_object ns') :=
                (props Hooks
                   (case Hooks_get Hooks ns' of Some obj \<Rightarrow> obj | None \<Rightarrow> Namespace_object ns'))
                  (hook_id stage' name' \<mapsto>
                     (case props Hooks
                        (case Hooks_get Hooks ns' of Some obj \<Rightarrow> obj | None \<Rightarrow> Namespace_object ns')
                        (hook_id stage' name') of None \<Rightarrow> [] | Some hs \<Rightarrow> hs) @ [hook]))"
  proof (cases "Hooks_get Hooks ns'")
    case None
    then have "ns' \<notin> set (namespaces Hooks)" by (simp add: Hooks_get_def split: if_splits)
    with assms(1) have e: "props Hooks (Namespace_object ns') = Map.empty"
      by (auto simp: clean_def)
    from None e p show ?thesis
      by (simp add: registerHook_def Let_def set_property_def)
  next
    case (Some obj)
    with p show ?thesis
      by (cases "props Hooks obj (hook_id stage' name')")
         (simp_all add: registerHook_def Let_def set_property_def)
  qed
qed

lemma Hooks_get_registerHook:
  assumes "clean Hooks" and "ns' \<noteq> ''__proto__''"
  shows "Hooks_get (registerHook ns' stage' name' hook Hooks) ns =
           (if ns = ns'
            then Some (case Hooks_get Hooks ns' of Some obj \<Rightarrow> obj | None \<Rightarrow> Namespace_object ns')
            else Hooks_get Hooks ns)"
proof (cases "Hooks_get Hooks ns'")
  case None
  then have "ns' \<notin> set inherited_functions" "ns' \<notin> set (namespaces Hooks)"
    by (simp_all add: Hooks_get_def split: if_splits)
  with None assms show ?thesis
    by (simp add: Hooks_get_def registerHook_clean(2) [OF assms])
next
  case (Some obj)
  with assms show ?thesis
    by (auto simp: Hooks_get_def registerHook_clean(2) [OF assms] split: if_splits)
qed

lemma Hooks_get_inject:
  assumes "clean Hooks" and "ns' \<noteq> ''__proto__''" and "ns \<noteq> ns'"
    and "Hooks_get Hooks ns = Some obj"
  shows "obj \<noteq> (case Hooks_get Hooks ns' of Some obj' \<Rightarrow> obj' | None \<Rightarrow> Namespace_object ns')"
proof (cases "Hooks_get Hooks ns'")
  case None
  from Hooks_get_clean [OF assms(1,4)] assms(3) None show ?thesis by auto
next
  case (Some obj')
  from Hooks_get_clean [OF assms(1,4)] Hooks_get_clean [OF assms(1) Some] assms(2,3) Some
  show ?thesis by auto
qed

lemma lookup_registerHook:
  assumes "clean Hooks" and "ns' \<noteq> ''__proto__''"
  shows "lookup_hooks (registerHook ns' stage' name' hook Hooks) ns stage name =
     (if ns' = ns \<and> stage' = stage \<and> name' = name
      then Some ((case lookup_hooks Hooks ns stage name of None \<Rightarrow> [] | Some hs \<Rightarrow> hs) @ [hook])
      else lookup_hooks Hooks ns stage name)"
proof -
  have c: "clean (registerHook ns' stage' name' hook Hooks)"
    using assms by (rule clean_registerHook)
  show ?thesis
  proof (cases "ns = ns'")
    case True
    show ?thesis
    proof (cases "Hooks_get Hooks ns'")
      case None
      then have "ns' \<notin> set (namespaces Hooks)" by (simp add: Hooks_get_def split: if_splits)
      with assms(1) have e: "props Hooks (Namespace_object ns') = Map.empty"
        by (auto simp: clean_def)
      from True None e show ?thesis
        unfolding lookup_clean [OF c] lookup_clean [OF assms(1)]
        by (simp add: Hooks_get_registerHook [OF assms] registerHook_clean(1) [OF assms]
            hook_id_inject)
    next
      case (Some obj)
      with True show ?thesis
        unfolding lookup_clean [OF c] lookup_clean [OF assms(1)]
        by (simp add: Hooks_get_registerHook [OF assms] registerHook_clean(1) [OF assms]
            hook_id_inject)
    qed
  next
    case False
    show ?thesis
    proof (cases "Hooks_get Hooks ns")
      case None
      with False show ?thesis
        unfolding lookup_clean [OF c] lookup_clean [OF assms(1)]
        by (simp add: Hooks_get_registerHook [OF assms])
    next
      case (Some obj)
      from Hooks_get_inject [OF assms False Some] Some False show ?thesis
        unfolding lookup_clean [OF c] lookup_clean [OF assms(1)]
        by (simp add: Hooks_get_registerHook [OF assms] registerHook_clean(1) [OF assms])
    qed
  qed
qed

lemma lookup_registry_of:
  "clean Hooks \<Longrightarrow> list_all (\<lambda>reg. fst reg \<noteq> ''__proto__'') regs \<Longrightarrow>
   lookup_hooks (registry_of regs Hooks) ns stage name =
     (case lookup_hooks Hooks ns stage name of
        None \<Rightarrow> (if registered regs ns stage name = [] then None
                  else Some (registered regs ns stage name))
      | Some hs \<Rightarrow> Some (hs @ registered regs ns stage name))"
proof (induction regs arbitrary: Hooks)
  case Nil
  show ?case by (simp split: option.splits)
next
  case (Cons reg regs)
  obtain ns' stage' name' hook where reg: "reg = (ns', stage', name', hook)"
    by (cases reg) auto
  with Cons.prems have n: "ns' \<noteq> ''__proto__''" and r: "list_all (\<lambda>reg. fst reg \<noteq> ''__proto__'') regs"
    by simp_all
  have c: "clean (registerHook ns' stage' name' hook Hooks)"
    using Cons.prems(1) n by (rule clean_registerHook)
  show ?case
    unfolding reg
    by (simp add: Cons.IH [OF c r] lookup_registerHook [OF Cons.prems(1) n] split: option.splits)
qed

lemma clean_empty: "clean empty_Hooks"
  by (simp add: clean_def empty_Hooks_def)

lemma lookup_empty: "lookup_hooks empty_Hooks ns stage name = None"
  by (simp add: lookup_hooks_def empty_Hooks_def Hooks_get_def get_property_def)

lemma lookup_registry_of_empty:
  "list_all (\<lambda>reg. fst reg \<noteq> ''__proto__'') regs \<Longrightarrow>
   lookup_hooks (registry_of regs empty_Hooks) ns stage name =
     (if registered regs ns stage name = [] then None else Some (registered regs ns stage name))"
  by (simp add: lookup_registry_of [OF clean_empty] lookup_empty)

lemma getCallHooks_composition:
  assumes "list_all (\<lambda>reg. fst reg \<noteq> ''__proto__'') regs"
  shows "(registered regs ns stage name = [] \<longrightarrow>
      getCallHooks (registry_of regs empty_Hooks) ns stage name = (\<lambda>v vars. Inr v))
   \<and> (registered regs ns stage name = [h] \<longrightarrow>
      getCallHooks (registry_of regs empty_Hooks) ns stage name = h)
   \<and> (registered regs ns stage name = [h1, h2] \<longrightarrow>
      getCallHooks (registry_of regs empty_Hooks) ns stage name v vars =
        (case h1 v vars of Inl e \<Rightarrow> Inl e | Inr v' \<Rightarrow> h2 v' vars))"
  by (auto simp: getCallHooks_def lookup_registry_of_empty [OF assms] split: sum.splits)

lemma getCallHooks_composition_example:
  "getCallHooks (registry_of [(''build'', Pre, ''parse'', plus_vars), (''constructor'', Pre, ''parse'', failing),
                  (''build'', Pre, ''parse'', twice)] empty_Hooks) ''build'' Pre ''parse'' 3 10 = Inr 26"
  using getCallHooks_composition [of "[(''build'', Pre, ''parse'', plus_vars),
      (''constructor'', Pre, ''parse'', failing), (''build'', Pre, ''parse'', twice)]"
      "''build''" Pre "''parse''" _ plus_vars twice 3 10]
  by (simp add: plus_vars_def twice_def)

section \<open>Properties of the transformer\<close>

lemma write_line_serialized:
  "item \<noteq> JUndefined \<Longrightarrow> write_line item outs = outs @ spec_serialized item"
  by (cases item) (simp_all add: write_line_def spec_serialized_def JSON_stringify_def)

lemma fold_write_line:
  "fold (\<lambda>item outs. if item \<noteq> JUndefined then write_line item outs else outs) items outs =
     outs @ concat (map spec_serialized items)"
proof (induction items arbitrary: outs)
  case Nil
  show ?case by simp
next
  case (Cons item items)
  show ?case
  proof (cases "item = JUndefined")
    case True
    then show ?thesis by (simp add: Cons.IH spec_serialized_def)
  next
    case False
    then show ?thesis by (simp add: Cons.IH write_line_serialized)
  qed
qed

lemma write_result_written:
  "write_result multiValue result outs = outs @ spec_written multiValue result"
proof (cases "result = JUndefined")
  case True
  then show ?thesis by (simp add: write_result_def spec_written_def spec_serialized_def)
next
  case False
  then show ?thesis
    by (cases result)
       (simp_all add: write_result_def spec_written_def write_line_serialized fold_write_line)
qed

text \<open>
  C6. For every record that \<^verbatim>\<open>process\<close> of \<^verbatim>\<open>recordTransformer\<close> handles, when the hooks
  and the operation succeed and \<open>result\<close> is what the post hooks return, the writes to
  \<^verbatim>\<open>outs\<close> are exactly those of the policy of the specification (\<open>spec_written\<close>):
  nothing for \<^verbatim>\<open>undefined\<close>, a string as it is and a newline, any other value
  JSON-encoded and a newline, and with \<^verbatim>\<open>multiValue\<close> each element of an array by the
  same rule, any other result as a single value.
\<close>

theorem recordTransformer_serialization:
  assumes "preHooks (JStr line) vars = Inr input" and "op input = Inr r"
    and "postHooks r vars = Inr result"
  shows "process_line preHooks op postHooks vars multiValue line outs =
           (Returns, outs @ spec_written multiValue result)"
  using assms by (simp add: process_line_def write_result_written)

theorem recordTransformer_serialization_witness:
  "getCallHooks no_hooks ''ns'' Pre ''copy'' (JStr ''in'') () = Inr (JStr ''in'')
   \<and> xy_op (JStr ''in'') = Inr (JArr [JStr ''x'', JObj [(''y'', JNum 1)]])
   \<and> process_line (getCallHooks no_hooks ''ns'' Pre ''copy'') xy_op
        (getCallHooks no_hooks ''ns'' Post ''copy'') () True ''in'' [] =
       (Returns,
        [JStr ''x'', JStr [CHR 0x0A],
         JStr [CHR ''{'', CHR 0x22, CHR ''y'', CHR 0x22, CHR '':'', CHR ''1'', CHR ''}''],
         JStr [CHR 0x0A]])
   \<and> process_line (getCallHooks no_hooks ''ns'' Pre ''copy'') xy_op
        (getCallHooks no_hooks ''ns'' Post ''copy'') () False ''in'' [] =
       (Returns,
        [JStr [CHR ''['', CHR 0x22, CHR ''x'', CHR 0x22, CHR '','',
               CHR ''{'', CHR 0x22, CHR ''y'', CHR 0x22, CHR '':'', CHR ''1'', CHR ''}'', CHR '']''],
         JStr [CHR 0x0A]])"
proof -
  have a: "getCallHooks no_hooks ''ns'' Pre ''copy'' (JStr ''in'') () = Inr (JStr ''in'')"
    by (simp add: getCallHooks_def lookup_hooks_def Hooks_get_def get_property_def
        empty_Hooks_def inherited_functions_def no_hooks_def)
  have b: "xy_op (JStr ''in'') = Inr (JArr [JStr ''x'', JObj [(''y'', JNum 1)]])"
    by (simp add: xy_op_def)
  have c: "getCallHooks no_hooks ''ns'' Post ''copy'' (JArr [JStr ''x'', JObj [(''y'', JNum 1)]]) () =
           Inr (JArr [JStr ''x'', JObj [(''y'', JNum 1)]])"
    by (simp add: getCallHooks_def lookup_hooks_def Hooks_get_def get_property_def
        empty_Hooks_def inherited_functions_def no_hooks_def)
  have d: "json_text (JObj [(''y'', JNum 1)]) =
           [CHR ''{'', CHR 0x22, CHR ''y'', CHR 0x22, CHR '':'', CHR ''1'', CHR ''}'']"
    by code_simp
  have e: "json_text (JArr [JStr ''x'', JObj [(''y'', JNum 1)]]) =
           [CHR ''['', CHR 0x22, CHR ''x'', CHR 0x22, CHR '','',
            CHR ''{'', CHR 0x22, CHR ''y'', CHR 0x22, CHR '':'', CHR ''1'', CHR ''}'', CHR '']'']"
    by code_simp
  have f: "spec_written True (JArr [JStr ''x'', JObj [(''y'', JNum 1)]]) =
        [JStr ''x'', JStr [CHR 0x0A],
         JStr [CHR ''{'', CHR 0x22, CHR ''y'', CHR 0x22, CHR '':'', CHR ''1'', CHR ''}''],
         JStr [CHR 0x0A]]"
    using d by (simp add: spec_written_def spec_serialized_def)
  have g: "spec_written False (JArr [JStr ''x'', JObj [(''y'', JNum 1)]]) =
        [JStr [CHR ''['', CHR 0x22, CHR ''x'', CHR 0x22, CHR '','',
               CHR ''{'', CHR 0x22, CHR ''y'', CHR 0x22, CHR '':'', CHR ''1'', CHR ''}'', CHR '']''],
         JStr [CHR 0x0A]]"
    using e by (simp add: spec_written_def spec_serialized_def)
  note inst = recordTransformer_serialization
    [where preHooks = "getCallHooks no_hooks ''ns'' Pre ''copy''" and line = "''in''"
       and vars = "()" and input = "JStr ''in''" and op = xy_op
       and r = "JArr [JStr ''x'', JObj [(''y'', JNum 1)]]"
       and postHooks = "getCallHooks no_hooks ''ns'' Post ''copy''"
       and result = "JArr [JStr ''x'', JObj [(''y'', JNum 1)]]" and outs = "[]", OF a b c]
  from inst [of True] inst [of False]
  show ?thesis using a b f g by simp
qed

text \<open>
  C10. With \<^verbatim>\<open>multiValue\<close>, for every array that the post hooks return, the writes are
  those of the elements that are not \<^verbatim>\<open>undefined\<close>, in order, each element as it is
  when it is a string and JSON-encoded otherwise, each followed by a newline: an
  element that is \<^verbatim>\<open>undefined\<close> leaves no line.
\<close>

theorem multiValue_skips_undefined:
  "write_result True (JArr items) outs =
     outs @ concat (map (\<lambda>item. [if typeof item = ''string'' then item else JStr (json_text item),
                                   JStr [CHR 0x0A]])
                     (filter (\<lambda>item. item \<noteq> JUndefined) items))"
proof -
  have "concat (map spec_serialized items) =
        concat (map (\<lambda>item. [if typeof item = ''string'' then item else JStr (json_text item),
                                   JStr [CHR 0x0A]])
                     (filter (\<lambda>item. item \<noteq> JUndefined) items))"
  proof (induction items)
    case Nil
    show ?case by simp
  next
    case (Cons item items)
    then show ?case by (cases item) (simp_all add: spec_serialized_def)
  qed
  then show ?thesis by (simp add: write_result_written spec_written_def)
qed




section \<open>Properties of step results and pipelines\<close>

lemma readable_hit:
  "cached r w \<Longrightarrow> \<exists>p. sr_path r = Some p \<and> StepResult_readable tt r w = (FileStream p, w)"
  by (subst StepResult_readable.simps) (auto simp: cached_def split: option.splits if_splits)

text \<open>
  C2. For every step result whose cache file exists when \<^verbatim>\<open>readable()\<close> is called,
  \<^verbatim>\<open>readable()\<close> returns a read stream on that file and leaves the world as it is: no
  file changes and no step function is called, neither its own nor one of a step
  before it. In particular, for the pipeline of two steps \<open>f1\<close> and \<open>f2\<close>, when the
  result of invoking it (the result of the second step) has its cache file, reading it
  calls no step function.
\<close>

theorem cache_short_circuit:
  "(cached r w \<longrightarrow>
      (\<exists>p. sr_path r = Some p \<and> exists_file w p \<and> StepResult_readable tt r w = (FileStream p, w)))
   \<and> (Pipeline_invoke tt
         (Pipeline_step join f2 c2 (Pipeline_open join f1 c1 (Pipeline_init init_fn (new_Pipeline dir))))
         default_fn args = Inr (Result r2) \<and> cached r2 w \<longrightarrow>
       sr_fn r2 = f2 \<and> invoked (snd (StepResult_readable tt r2 w)) = invoked w)"
proof (intro conjI impI)
  assume "cached r w"
  from readable_hit [OF this, of tt]
  obtain p where p: "sr_path r = Some p" "StepResult_readable tt r w = (FileStream p, w)" by blast
  with \<open>cached r w\<close> have "exists_file w p" by (simp add: cached_def split: if_splits)
  with p show "\<exists>p. sr_path r = Some p \<and> exists_file w p \<and> StepResult_readable tt r w = (FileStream p, w)"
    by simp
next
  assume a: "Pipeline_invoke tt
         (Pipeline_step join f2 c2 (Pipeline_open join f1 c1 (Pipeline_init init_fn (new_Pipeline dir))))
         default_fn args = Inr (Result r2) \<and> cached r2 w"
  then show "sr_fn r2 = f2"
    by (auto simp: Pipeline_invoke_def Pipeline_done_def Pipeline_step_def Pipeline_open_def
        Pipeline_init_def new_Pipeline_def default_fn_def Step_invoke_def new_StepResult_def Let_def
        split: init_result.splits)
next
  assume a: "Pipeline_invoke tt
         (Pipeline_step join f2 c2 (Pipeline_open join f1 c1 (Pipeline_init init_fn (new_Pipeline dir))))
         default_fn args = Inr (Result r2) \<and> cached r2 w"
  then have "cached r2 w" by simp
  from readable_hit [OF this, of tt] show "invoked (snd (StepResult_readable tt r2 w)) = invoked w"
    by auto
qed

theorem cache_short_circuit_witness:
  "cached second_result second_cached
   \<and> Pipeline_invoke tt_suffix two_steps default_fn ''k'' = Inr (Result second_result)
   \<and> StepResult_readable tt_suffix second_result second_cached = (FileStream ''cache/out-k'', second_cached)
   \<and> invoked (snd (StepResult_readable tt_suffix second_result second_cached)) = []"
proof -
  have a: "cached second_result second_cached"
    by (simp add: cached_def second_result_def second_cached_def truthy_def exists_file_def)
  have b: "Pipeline_invoke tt_suffix
         (Pipeline_step join_slash exclaim (Some ''out'')
            (Pipeline_open join_slash greet (Some ''in'')
               (Pipeline_init (\<lambda>args. Vars (Some args)) (new_Pipeline ''cache''))))
         default_fn ''k'' = Inr (Result second_result)"
    by (simp add: Pipeline_invoke_def Pipeline_done_def Pipeline_step_def Pipeline_open_def
        Pipeline_init_def new_Pipeline_def default_fn_def Step_invoke_def new_StepResult_def Let_def
        second_result_def truthy_def join_slash_def tt_suffix_def)
  have c: "sr_path second_result = Some ''cache/out-k''" by (simp add: second_result_def)
  have d: "invoked second_cached = []" by (simp add: second_cached_def)
  from cache_short_circuit [of second_result second_cached tt_suffix join_slash exclaim "Some ''out''"
      greet "Some ''in''" "\<lambda>args. Vars (Some args)" "''cache''" "''k''" second_result]
  show ?thesis using a b c d by (auto simp: two_steps_def)
qed

text \<open>
  C5. The claim: for every step with a cache path and no cache file yet, once the
  stream that \<^verbatim>\<open>readable()\<close> returned is read to the end, the bytes of the cache file are
  the concatenation of the chunks that the reader received. The through stream emits
  each chunk when it is queued, and \<^verbatim>\<open>readable()\<close> returns the stream only after it has
  called the step function, so what the function writes during its call goes to the
  file and to no reader: for a first step that writes \<^verbatim>\<open>hello\<close> during the call and
  \<^verbatim>\<open>world\<close> later, the reader receives \<^verbatim>\<open>world\<close> and the file holds \<^verbatim>\<open>hello world\<close>; for
  one that writes both during the call, the reader receives nothing.
\<close>

theorem tee_loses_chunks_written_during_the_call:
  "StepResult_readable tt_suffix announce_result nothing_cached =
     (ThroughStream \<lparr>fouts = Some ''cache/in-k'', listening = False, heard = [],
                    unheard = [''hello ''], ended = False\<rparr> [''world''],
      \<lparr>files = [''cache/in-k'' \<mapsto> ''hello ''], invoked = [announce]\<rparr>)
   \<and> fst (read_all (StepResult_readable tt_suffix announce_result nothing_cached)) = [''world'']
   \<and> files (snd (read_all (StepResult_readable tt_suffix announce_result nothing_cached))) ''cache/in-k''
       = Some ''hello world''
   \<and> fst (read_all (StepResult_readable tt_suffix (announce_result\<lparr>sr_fn := at_once\<rparr>) nothing_cached)) = []
   \<and> files (snd (read_all (StepResult_readable tt_suffix (announce_result\<lparr>sr_fn := at_once\<rparr>)
        nothing_cached))) ''cache/in-k'' = Some ''hello world''"
  by (simp add: StepResult_readable.simps announce_result_def nothing_cached_def cached_def
      truthy_def exists_file_def StepResult_output_def call_fn_def through_write_def
      through_end_def fouts_write_def queue_def read_all_def announce_def at_once_def)

text \<open>
  What does hold: for every step result with a cache path and no cache file, where no
  step before it resolves to the same path, the reader of the stream that
  \<^verbatim>\<open>readable()\<close> returned receives exactly the chunks that the step function writes after
  \<^verbatim>\<open>readable()\<close> has returned, and the cache file then holds the concatenation of all the
  chunks the function wrote. The two are the same bytes when the function writes
  nothing before \<^verbatim>\<open>readable()\<close> has returned.
\<close>

lemma queue_fields [simp]:
  "fouts (queue c outs) = fouts outs" "listening (queue c outs) = listening outs"
  "heard (queue c outs) = heard outs @ (if listening outs then [c] else [])"
  by (simp_all add: queue_def)

lemma fold_through_write_sink:
  "fouts (fst (fold through_write cs (outs, w))) = fouts outs
   \<and> listening (fst (fold through_write cs (outs, w))) = listening outs
   \<and> heard (fst (fold through_write cs (outs, w))) =
       heard outs @ (if listening outs then cs else [])
   \<and> invoked (snd (fold through_write cs (outs, w))) = invoked w"
proof (induction cs arbitrary: outs w)
  case Nil
  show ?case by simp
next
  case (Cons c cs)
  show ?case
  proof (cases "fouts outs")
    case None
    with Cons.IH [of "queue c outs" w] show ?thesis by (simp add: through_write_def)
  next
    case (Some q)
    with Cons.IH [of "queue c outs" "fouts_write q c w"] show ?thesis
      by (simp add: through_write_def fouts_write_def)
  qed
qed

lemma fold_through_write_frame:
  "fouts outs \<noteq> Some p \<Longrightarrow> files (snd (fold through_write cs (outs, w))) p = files w p"
proof (induction cs arbitrary: outs w)
  case Nil
  show ?case by simp
next
  case (Cons c cs)
  show ?case
  proof (cases "fouts outs")
    case None
    with Cons.IH [of "queue c outs" w] show ?thesis by (simp add: through_write_def)
  next
    case (Some q)
    with Cons.prems have "q \<noteq> p" by simp
    with Some Cons.prems Cons.IH [of "queue c outs" "fouts_write q c w"] show ?thesis
      by (simp add: through_write_def fouts_write_def)
  qed
qed

lemma fold_through_write_file:
  "fouts outs = Some p \<Longrightarrow> files w p = Some bs \<Longrightarrow>
     files (snd (fold through_write cs (outs, w))) p = Some (bs @ concat cs)"
proof (induction cs arbitrary: outs w bs)
  case Nil
  then show ?case by simp
next
  case (Cons c cs)
  have "files (fouts_write p c w) p = Some (bs @ c)"
    using Cons.prems by (simp add: fouts_write_def)
  with Cons.prems Cons.IH [of "queue c outs" "fouts_write p c w" "bs @ c"] show ?case
    by (simp add: through_write_def)
qed

lemma read_all_frame:
  "stream_path s \<noteq> Some p \<Longrightarrow> files (snd (read_all (s, w))) p = files w p"
proof (cases s)
  case (FileStream q)
  then show ?thesis by (simp add: read_all_def)
next
  case (ThroughStream outs late)
  assume "stream_path s \<noteq> Some p"
  with ThroughStream have "fouts (outs\<lparr>listening := True\<rparr>) \<noteq> Some p" by simp
  from fold_through_write_frame [OF this, of late w] ThroughStream show ?thesis
    by (auto simp: read_all_def through_end_def split: prod.splits)
qed

lemma read_all_through:
  "fouts outs = Some p \<Longrightarrow> files w p = Some bs \<Longrightarrow>
     fst (read_all (ThroughStream outs late, w)) = heard outs @ late
     \<and> files (snd (read_all (ThroughStream outs late, w))) p = Some (bs @ concat late)"
  using fold_through_write_sink [of late "outs\<lparr>listening := True\<rparr>" w]
        fold_through_write_file [of "outs\<lparr>listening := True\<rparr>" p w bs late]
  by (auto simp: read_all_def through_end_def split: prod.splits)

lemma call_fn_frame:
  assumes "fouts outs \<noteq> Some p" and "\<forall>s. ins = Some s \<longrightarrow> stream_path s \<noteq> Some p"
  shows "files (snd (call_fn r ins (outs, w))) p = files w p
         \<and> stream_path (fst (call_fn r ins (outs, w))) \<noteq> Some p"
proof (cases ins)
  case None
  obtain early late where f: "sr_fn r (sr_vars r) None = (early, late)"
    by (cases "sr_fn r (sr_vars r) None")
  from fold_through_write_frame [OF assms(1), of early "w\<lparr>invoked := invoked w @ [sr_fn r]\<rparr>"]
       fold_through_write_sink [of early outs "w\<lparr>invoked := invoked w @ [sr_fn r]\<rparr>"]
       assms(1) None f
  show ?thesis by (auto simp: call_fn_def split: prod.splits)
next
  case (Some s)
  with assms(2) have sp: "stream_path s \<noteq> Some p" by simp
  obtain cs w1 where ra: "read_all (s, w\<lparr>invoked := invoked w @ [sr_fn r]\<rparr>) = (cs, w1)"
    by (cases "read_all (s, w\<lparr>invoked := invoked w @ [sr_fn r]\<rparr>)")
  from read_all_frame [OF sp, of "w\<lparr>invoked := invoked w @ [sr_fn r]\<rparr>"] ra
  have w1: "files w1 p = files w p" by simp
  obtain early late where f: "sr_fn r (sr_vars r) (Some cs) = (early, late)"
    by (cases "sr_fn r (sr_vars r) (Some cs)")
  from fold_through_write_frame [OF assms(1), of early w1]
       fold_through_write_sink [of early outs w1] assms(1) Some ra f w1
  show ?thesis by (auto simp: call_fn_def split: prod.splits)
qed

lemma output_frame:
  "sr_path r \<noteq> Some p \<Longrightarrow>
     files (snd (StepResult_output r w)) p = files w p
     \<and> fouts (fst (StepResult_output r w)) \<noteq> Some p"
  by (auto simp: StepResult_output_def split: option.splits)

lemma Step_readable_frame:
  "p \<notin> set (step_paths tt vars s) \<Longrightarrow>
     files (snd (Step_readable tt s vars w)) p = files w p
     \<and> stream_path (fst (Step_readable tt s vars w)) \<noteq> Some p"
proof (induction s arbitrary: w)
  case (Step fn cachePath prevStep)
  define r where "r = Step_invoke tt (Step fn cachePath prevStep) vars"
  have rp: "sr_path r \<noteq> Some p"
    using Step.prems by (auto simp: r_def Step_invoke_def split: option.splits)
  have ri: "sr_input r = prevStep" by (simp add: r_def Step_invoke_def new_StepResult_def)
  have rv: "sr_vars r = vars" by (simp add: r_def Step_invoke_def new_StepResult_def)
  show ?case
  proof (cases "cached r w")
    case True
    then show ?thesis
      by (simp add: r_def [symmetric]) (subst StepResult_readable.simps, simp split: option.splits)+
  next
    case False
    obtain ins w1 where up: "(case sr_input r of None \<Rightarrow> (None, w)
        | Some input \<Rightarrow> (case Step_readable tt input (sr_vars r) w of (s, w') \<Rightarrow> (Some s, w'))) = (ins, w1)"
      by (cases "(case sr_input r of None \<Rightarrow> (None, w)
        | Some input \<Rightarrow> (case Step_readable tt input (sr_vars r) w of (s, w') \<Rightarrow> (Some s, w')))")
    have upf: "files w1 p = files w p \<and> (\<forall>s. ins = Some s \<longrightarrow> stream_path s \<noteq> Some p)"
    proof (cases "sr_input r")
      case None
      with up show ?thesis by simp
    next
      case (Some input)
      with ri Step.prems have "p \<notin> set (step_paths tt vars input)" by simp
      from Step.IH [of input, OF _ this, of w] Some ri up rv show ?thesis
        by (auto split: prod.splits)
    qed
    obtain outs w2 where o: "StepResult_output r w1 = (outs, w2)"
      by (cases "StepResult_output r w1")
    from output_frame [OF rp, of w1] o have of: "files w2 p = files w1 p" "fouts outs \<noteq> Some p"
      by simp_all
    have "Step_readable tt (Step fn cachePath prevStep) vars w = call_fn r ins (outs, w2)"
      using False up o
      by (simp add: r_def [symmetric]) (subst StepResult_readable.simps, simp)
    with call_fn_frame [OF of(2), of ins r w2] upf of show ?thesis by simp
  qed
qed

lemma tee_of_later_writes:
  assumes "sr_path r = Some p" and "p \<noteq> []" and "files w p = None"
    and "p \<notin> set (case sr_input r of None \<Rightarrow> [] | Some s \<Rightarrow> step_paths tt (sr_vars r) s)"
  shows "fst (read_all (StepResult_readable tt r w)) = snd (fn_output tt r w)
         \<and> files (snd (read_all (StepResult_readable tt r w))) p =
             Some (concat (fst (fn_output tt r w) @ snd (fn_output tt r w)))"
proof -
  have nc: "\<not> cached r w" using assms by (simp add: cached_def exists_file_def truthy_def)
  have t: "truthy (sr_path r)" using assms by (simp add: truthy_def)
  obtain ins w1 where up: "(case sr_input r of None \<Rightarrow> (None, w)
      | Some input \<Rightarrow> (case Step_readable tt input (sr_vars r) w of (s, w') \<Rightarrow> (Some s, w'))) = (ins, w1)"
    by (cases "(case sr_input r of None \<Rightarrow> (None, w)
      | Some input \<Rightarrow> (case Step_readable tt input (sr_vars r) w of (s, w') \<Rightarrow> (Some s, w')))")
  have sp: "\<forall>s. ins = Some s \<longrightarrow> stream_path s \<noteq> Some p"
  proof (cases "sr_input r")
    case None
    with up show ?thesis by simp
  next
    case (Some input)
    with assms(4) have "p \<notin> set (step_paths tt (sr_vars r) input)" by simp
    from Step_readable_frame [OF this, of w] Some up show ?thesis by (auto split: prod.splits)
  qed
  define w2 where "w2 = w1\<lparr>files := (files w1)(p \<mapsto> [])\<rparr>"
  define outs where "outs = \<lparr>fouts = Some p, listening = False, heard = [], unheard = [], ended = False\<rparr>"
  have o: "StepResult_output r w1 = (outs, w2)"
    using assms t by (simp add: StepResult_output_def outs_def w2_def)
  obtain input w4 where inp: "(case ins of None \<Rightarrow> (None, w2\<lparr>invoked := invoked w2 @ [sr_fn r]\<rparr>)
      | Some s \<Rightarrow> (case read_all (s, w2\<lparr>invoked := invoked w2 @ [sr_fn r]\<rparr>) of
          (cs, w') \<Rightarrow> (Some cs, w'))) = (input, w4)"
    by (cases "(case ins of None \<Rightarrow> (None, w2\<lparr>invoked := invoked w2 @ [sr_fn r]\<rparr>)
      | Some s \<Rightarrow> (case read_all (s, w2\<lparr>invoked := invoked w2 @ [sr_fn r]\<rparr>) of
          (cs, w') \<Rightarrow> (Some cs, w')))")
  have w4: "files w4 p = Some []"
  proof (cases ins)
    case None
    with inp show ?thesis by (auto simp: w2_def)
  next
    case (Some s)
    with sp have "stream_path s \<noteq> Some p" by simp
    from read_all_frame [OF this, of "w2\<lparr>invoked := invoked w2 @ [sr_fn r]\<rparr>"] Some inp show ?thesis
      by (auto simp: w2_def split: prod.splits)
  qed
  obtain early late where f: "sr_fn r (sr_vars r) input = (early, late)"
    by (cases "sr_fn r (sr_vars r) input")
  have fo: "fn_output tt r w = (early, late)"
  proof (cases "sr_input r")
    case None
    with up inp f show ?thesis by (auto simp: fn_output_def)
  next
    case (Some i)
    with up inp f o show ?thesis
      by (auto simp: fn_output_def split: prod.splits)
  qed
  obtain outs' w5 where e: "fold through_write early (outs, w4) = (outs', w5)"
    by (cases "fold through_write early (outs, w4)")
  have r: "StepResult_readable tt r w = (ThroughStream outs' late, w5)"
    using nc up o inp f e
    by (subst StepResult_readable.simps) (simp add: call_fn_def)
  from fold_through_write_sink [of early outs w4] e
  have s5: "fouts outs' = Some p" "heard outs' = []" by (simp_all add: outs_def)
  from fold_through_write_file [of outs p w4 "[]" early] w4 e
  have f5: "files w5 p = Some (concat early)" by (simp add: outs_def)
  from read_all_through [OF s5(1) f5, of late] s5(2) show ?thesis
    by (simp add: r fo)
qed


section \<open>Properties of sending\<close>

text \<open>
  C8. The claim: a read error before any byte was sent gives exactly a 404 when the
  error is a missing file, and exactly a 500 otherwise. The code, when \<^verbatim>\<open>Log\<close> is
  defined, calls \<^verbatim>\<open>res.sendStatus( 404 )\<close> and then, with no \<^verbatim>\<open>return\<close> or \<^verbatim>\<open>else\<close>,
  \<^verbatim>\<open>res.sendStatus( 500 )\<close> as well; when \<^verbatim>\<open>Log\<close> is not defined the handler throws
  before it sends anything. The other parts of the claim hold where \<^verbatim>\<open>Log\<close> is
  defined: the headers go out with the first chunk that is not empty, a stream that
  ends with nothing written gives 204, another error before any byte gives 500, and an
  error after bytes were sent only ends the response.
\<close>

theorem send_missing_file_sends_two_statuses:
  "res (send True h [On_error ''ENOENT'']) = [Res_sendStatus 404, Res_sendStatus 500]
   \<and> res (send False h [On_error ''ENOENT'']) = []
   \<and> thrown (send False h [On_error ''ENOENT'']) = [ReferenceError]
   \<and> res (send True h [On_error ''EACCES'']) = [Res_sendStatus 500]
   \<and> res (send True h [On_data [], On_data ''ab'', On_data ''c'', On_error ''EIO'']) =
       [Res_set h, Res_write ''ab'', Res_write ''c'', Res_end]
   \<and> res (send True h [On_data [], On_end]) = [Res_sendStatus 204, Res_end]"
  by (simp add: send_def)

end
